theory Spec2Isabelle
  imports Main "HOL-Library.Word"
begin

unbundle bit_operations_syntax

section \<open>The parse buffer (\<^verbatim>\<open>internal::Buffer\<close>)\<close>

text \<open>
  A \<^verbatim>\<open>std::string\<close> with two \<^verbatim>\<open>int\<close> cursors. The cursors are modelled as
  mathematical integers: every cursor the class stores lies between 0 and the length of the
  string, so 32-bit overflow of a stored cursor needs a buffer of 2 GiB.
\<close>

record Buffer =
  buffer :: string
  headCursor :: int
  rollbackCursor :: int

text \<open>The default-constructed buffer: empty string, both cursors 0.\<close>

definition fresh :: Buffer where
  "fresh = \<lparr>buffer = [], headCursor = 0, rollbackCursor = 0\<rparr>"

text \<open>
  The comparison \<^verbatim>\<open>i < buffer.size()\<close> of an \<^verbatim>\<open>int\<close> with a \<^verbatim>\<open>size_t\<close> converts the
  \<^verbatim>\<open>int\<close> to unsigned: a negative \<^verbatim>\<open>i\<close> becomes a value of at least \<open>2^63\<close>, which
  no string length reaches, so the comparison is false for it.
\<close>

definition lt_size :: "int \<Rightarrow> string \<Rightarrow> bool" where
  "lt_size i s = (0 \<le> i \<and> i < int (length s))"

text \<open>\<^verbatim>\<open>operator=\<close>: assigns a new string and resets both cursors.\<close>

definition assign :: "Buffer \<Rightarrow> string \<Rightarrow> Buffer" where
  "assign b other = b\<lparr>buffer := other, headCursor := 0, rollbackCursor := 0\<rparr>"

text \<open>\<^verbatim>\<open>operator+=\<close>: appends to the string, cursors untouched.\<close>

definition plus_assign :: "Buffer \<Rightarrow> string \<Rightarrow> Buffer" where
  "plus_assign b other = b\<lparr>buffer := buffer b @ other\<rparr>"

text \<open>
  \<^verbatim>\<open>current()\<close> is \<^verbatim>\<open>buffer[headCursor]\<close>. \<^verbatim>\<open>std::string::operator[]\<close> yields the
  terminating NUL at index \<^verbatim>\<open>size()\<close> and is undefined beyond it (\<open>None\<close>).
\<close>

definition current :: "Buffer \<Rightarrow> char option" where
  "current b =
     (if lt_size (headCursor b) (buffer b) then Some (buffer b ! nat (headCursor b))
      else if headCursor b = int (length (buffer b)) then Some (CHR 0x00)
      else None)"

text \<open>
  \<^verbatim>\<open>next()\<close>: the head cursor moves to \<^verbatim>\<open>headCursor+1\<close> and the byte there is returned,
  when that index is inside the string; otherwise \<^verbatim>\<open>nullopt\<close> and no move.
\<close>

definition next_char :: "Buffer \<Rightarrow> char option \<times> Buffer" where
  "next_char b =
     (let nextCursor = headCursor b + 1 in
      if lt_size nextCursor (buffer b)
      then (Some (buffer b ! nat nextCursor), b\<lparr>headCursor := nextCursor\<rparr>)
      else (None, b))"

definition rollback :: "Buffer \<Rightarrow> Buffer" where
  "rollback b = b\<lparr>headCursor := rollbackCursor b\<rparr>"

definition commit :: "Buffer \<Rightarrow> Buffer" where
  "commit b = b\<lparr>rollbackCursor := headCursor b\<rparr>"

definition reset :: "Buffer \<Rightarrow> Buffer" where
  "reset b = b\<lparr>headCursor := 0\<rparr>"

text \<open>\<^verbatim>\<open>set(newpos)\<close> and \<^verbatim>\<open>increment(update)\<close> return whether the cursor moved.\<close>

definition set_cursor :: "Buffer \<Rightarrow> int \<Rightarrow> bool \<times> Buffer" where
  "set_cursor b newpos =
     (if lt_size newpos (buffer b) \<and> newpos \<ge> 0 then (True, b\<lparr>headCursor := newpos\<rparr>)
      else (False, b))"

definition increment :: "Buffer \<Rightarrow> int \<Rightarrow> bool \<times> Buffer" where
  "increment b update =
     (let nextCursor = headCursor b + update in
      if lt_size nextCursor (buffer b) \<and> nextCursor \<ge> 0
      then (True, b\<lparr>headCursor := nextCursor\<rparr>)
      else (False, b))"

definition empty_buf :: "Buffer \<Rightarrow> bool" where
  "empty_buf b = (buffer b = [])"

definition sizeAfterCursor :: "Buffer \<Rightarrow> int" where
  "sizeAfterCursor b = int (length (buffer b)) - headCursor b"

definition sizeBeforeCursor :: "Buffer \<Rightarrow> int" where
  "sizeBeforeCursor b = headCursor b"

subsection \<open>Sequences of public operations\<close>

datatype buffer_op =
  Assign string | Append string | Next | Rollback | Commit | Reset | Set int | Increment int

fun apply_op :: "Buffer \<Rightarrow> buffer_op \<Rightarrow> Buffer" where
  "apply_op b (Assign s) = assign b s"
| "apply_op b (Append s) = plus_assign b s"
| "apply_op b Next = snd (next_char b)"
| "apply_op b Rollback = rollback b"
| "apply_op b Commit = commit b"
| "apply_op b Reset = reset b"
| "apply_op b (Set p) = snd (set_cursor b p)"
| "apply_op b (Increment d) = snd (increment b d)"

fun run_ops :: "Buffer \<Rightarrow> buffer_op list \<Rightarrow> Buffer" where
  "run_ops b [] = b"
| "run_ops b (x # xs) = run_ops (apply_op b x) xs"

text \<open>The invariant of the specification, and the part of it every operation keeps.\<close>

definition cursors_ordered :: "Buffer \<Rightarrow> bool" where
  "cursors_ordered b =
     (0 \<le> rollbackCursor b \<and> rollbackCursor b \<le> headCursor b
      \<and> headCursor b \<le> int (length (buffer b)))"

definition cursors_in_range :: "Buffer \<Rightarrow> bool" where
  "cursors_in_range b =
     (0 \<le> rollbackCursor b \<and> rollbackCursor b \<le> int (length (buffer b))
      \<and> 0 \<le> headCursor b \<and> headCursor b \<le> int (length (buffer b)))"

text \<open>The operations that never move the head cursor below the rollback cursor.\<close>

fun forward_op :: "buffer_op \<Rightarrow> bool" where
  "forward_op Reset = False"
| "forward_op (Set p) = False"
| "forward_op (Increment d) = False"
| "forward_op x = True"

text \<open>The buffer after \<open>n\<close> calls of \<^verbatim>\<open>next()\<close>.\<close>

fun next_n :: "nat \<Rightarrow> Buffer \<Rightarrow> Buffer" where
  "next_n 0 b = b"
| "next_n (Suc n) b = next_n n (snd (next_char b))"

section \<open>Requests (\<^verbatim>\<open>Request\<close>)\<close>

text \<open>
  \<^verbatim>\<open>Request\<close>: three strings and an \<^verbatim>\<open>unordered_map<string, string>\<close> of headers, all
  default-constructed empty.
\<close>

record Request =
  type :: string
  path :: string
  version :: string
  headers :: "string \<rightharpoonup> string"

definition empty_Request :: Request where
  "empty_Request = \<lparr>type = [], path = [], version = [], headers = Map.empty\<rparr>"

definition setType :: "Request \<Rightarrow> string \<Rightarrow> Request" where
  "setType r newtype = r\<lparr>type := newtype\<rparr>"

definition setPath :: "Request \<Rightarrow> string \<Rightarrow> Request" where
  "setPath r newpath = r\<lparr>path := newpath\<rparr>"

definition setVersion :: "Request \<Rightarrow> string \<Rightarrow> Request" where
  "setVersion r newversion = r\<lparr>version := newversion\<rparr>"

definition setHeader :: "Request \<Rightarrow> string \<Rightarrow> string \<Rightarrow> Request" where
  "setHeader r key val = r\<lparr>headers := (headers r)(key \<mapsto> val)\<rparr>"

text \<open>
  \<^verbatim>\<open>getHeader\<close> is \<^verbatim>\<open>return headers[key]\<close>: \<^verbatim>\<open>operator[]\<close> of
  \<^verbatim>\<open>unordered_map\<close> inserts a default-constructed (empty) value for a key that is not
  there and returns it. The model returns the value and the request after the call.
\<close>

definition getHeader :: "Request \<Rightarrow> string \<Rightarrow> string \<times> Request" where
  "getHeader r key =
     (case headers r key of
        Some v \<Rightarrow> (v, r)
      | None \<Rightarrow> ([], r\<lparr>headers := (headers r)(key \<mapsto> [])\<rparr>))"

section \<open>The request parser (\<^verbatim>\<open>Server::DeserializeRequest\<close>)\<close>

definition CR :: char where
  "CR = CHR 0x0D"

definition LF :: char where
  "LF = CHR 0x0A"

text \<open>
  \<^verbatim>\<open>std::to_string\<close> on a \<^verbatim>\<open>char\<close>: the \<^verbatim>\<open>char\<close> is promoted to \<^verbatim>\<open>int\<close>
  (\<^verbatim>\<open>char\<close> is signed on the Linux targets the server builds for) and printed in decimal.
\<close>

fun dec :: "nat \<Rightarrow> string" where
  "dec n = (if n < 10 then [char_of (48 + n)] else dec (n div 10) @ [char_of (48 + n mod 10)])"

declare dec.simps [simp del]

definition to_string :: "int \<Rightarrow> string" where
  "to_string i = (if i < 0 then CHR ''-'' # dec (nat (- i)) else dec (nat i))"

definition char_to_int :: "char \<Rightarrow> int" where
  "char_to_int c = (if (of_char c :: int) < 128 then of_char c else of_char c - 256)"

text \<open>
  \<^verbatim>\<open>DeserializeRequest\<close> returns \<^verbatim>\<open>void\<close> and works on the buffer and the request in
  place. The model returns both, and records which way the function was left: through the
  \<^verbatim>\<open>throw\<close>, through one of the \<^verbatim>\<open>rollback(); return;\<close> exits (with the part of the
  request that was being read), or through the \<^verbatim>\<open>commit(); return;\<close> at the empty line
  that ends the header block.
\<close>

datatype phase = InType | InPath | InVersion | InHeaders

datatype parse_exit = NeedMore phase | Complete

datatype outcome = Threw string Buffer Request | Returned parse_exit Buffer Request

text \<open>
  The loops that read the method and the path are the same code: bytes are appended to the
  accumulator until a space; at the space the loop commits, at the end of the buffer it rolls
  back. The result is the buffer and the token, \<open>None\<close> when the buffer ran out.
\<close>

function read_until_space :: "Buffer \<Rightarrow> string \<Rightarrow> Buffer \<times> string option" where
  "read_until_space b identifier =
     (case next_char b of
        (None, b') \<Rightarrow> (rollback b', None)
      | (Some c, b') \<Rightarrow>
          if c = CHR '' '' then (commit b', Some identifier)
          else read_until_space b' (identifier @ [c]))"
  by pat_completeness auto
termination
  by (relation "measure (\<lambda>(b, i). nat (int (length (buffer b)) - headCursor b))")
     (auto simp: next_char_def Let_def lt_size_def split: if_splits)

declare read_until_space.simps [simp del]

text \<open>
  The loops that read the version and a header value are the same code too: carriage
  returns are skipped and the token ends at the newline.
\<close>

function read_until_newline :: "Buffer \<Rightarrow> string \<Rightarrow> Buffer \<times> string option" where
  "read_until_newline b identifier =
     (case next_char b of
        (None, b') \<Rightarrow> (rollback b', None)
      | (Some c, b') \<Rightarrow>
          if c = CR then read_until_newline b' identifier
          else if c = LF then (commit b', Some identifier)
          else read_until_newline b' (identifier @ [c]))"
  by pat_completeness auto
termination
  by (relation "measure (\<lambda>(b, i). nat (int (length (buffer b)) - headCursor b))")
     (auto simp: next_char_def Let_def lt_size_def split: if_splits)

declare read_until_newline.simps [simp del]

text \<open>
  The header loop. The key accumulator \<^verbatim>\<open>identifier\<close> is only written after a header
  value has been read: the statement \<^verbatim>\<open>identifier += c.value()\<close> stands inside the
  \<^verbatim>\<open>if (c.value()==':')\<close> block, behind the loop that reads the value, where
  \<^verbatim>\<open>c\<close> is the newline that ended the value. A byte that is neither carriage return,
  newline nor colon is read and dropped.
\<close>

function headers_loop :: "Buffer \<Rightarrow> Request \<Rightarrow> string \<Rightarrow> outcome" where
  "headers_loop b request identifier =
     (case next_char b of
        (None, b1) \<Rightarrow> Returned (NeedMore InHeaders) (rollback b1) request
      | (Some c, b1) \<Rightarrow>
          if c = CR then headers_loop b1 request identifier
          else if c = LF then Returned Complete (commit b1) request
          else if c = CHR '':'' then
            (case next_char b1 of
               (None, b2) \<Rightarrow> Returned (NeedMore InHeaders) (rollback b2) request
             | (Some c2, b2) \<Rightarrow>
                 if c2 \<noteq> CHR '' '' then
                   Threw (''Expected space (' ') character after colon (':'). Got ''
                          @ to_string (char_to_int c2)) b2 request
                 else
                   (case read_until_newline b2 [] of
                      (b3, None) \<Rightarrow> Returned (NeedMore InHeaders) b3 request
                    | (b3, Some val) \<Rightarrow>
                        headers_loop b3 (setHeader request identifier val) ([] @ [LF])))
          else headers_loop b1 request identifier)"
  by pat_completeness auto
termination
proof -
  have progress: "read_until_newline b acc = (b', Some v) \<Longrightarrow>
      buffer b' = buffer b \<and> headCursor b < headCursor b'" for b acc b' v
  proof (induction b acc rule: read_until_newline.induct)
    case (1 b acc)
    then show ?case
      by (subst (asm) (3) read_until_newline.simps)
         (fastforce simp: next_char_def Let_def lt_size_def commit_def rollback_def
            split: if_splits)
  qed
  show ?thesis
    by (relation "measure (\<lambda>(b, r, i). nat (int (length (buffer b)) - headCursor b))")
       (auto simp: next_char_def Let_def lt_size_def split: if_splits
          dest!: progress [OF sym])
qed

declare headers_loop.simps [simp del]

text \<open>The three guarded blocks for method, path and version, then the header loop.\<close>

definition parse_type :: "Buffer \<Rightarrow> Request \<Rightarrow> outcome + Buffer \<times> Request" where
  "parse_type b request =
     (if type request = [] then
        (case read_until_space b [] of
           (b', None) \<Rightarrow> Inl (Returned (NeedMore InType) b' request)
         | (b', Some identifier) \<Rightarrow> Inr (b', setType request identifier))
      else Inr (b, request))"

definition parse_path :: "Buffer \<Rightarrow> Request \<Rightarrow> outcome + Buffer \<times> Request" where
  "parse_path b request =
     (if path request = [] then
        (case read_until_space b [] of
           (b', None) \<Rightarrow> Inl (Returned (NeedMore InPath) b' request)
         | (b', Some identifier) \<Rightarrow> Inr (b', setPath request identifier))
      else Inr (b, request))"

definition parse_version :: "Buffer \<Rightarrow> Request \<Rightarrow> outcome + Buffer \<times> Request" where
  "parse_version b request =
     (if version request = [] then
        (case read_until_newline b [] of
           (b', None) \<Rightarrow> Inl (Returned (NeedMore InVersion) b' request)
         | (b', Some identifier) \<Rightarrow> Inr (b', setVersion request identifier))
      else Inr (b, request))"

definition DeserializeRequest :: "Buffer \<Rightarrow> Request \<Rightarrow> outcome" where
  "DeserializeRequest b request =
     (case parse_type b request of
        Inl out \<Rightarrow> out
      | Inr (b1, r1) \<Rightarrow>
     (case parse_path b1 r1 of
        Inl out \<Rightarrow> out
      | Inr (b2, r2) \<Rightarrow>
     (case parse_version b2 r2 of
        Inl out \<Rightarrow> out
      | Inr (b3, r3) \<Rightarrow> headers_loop b3 r3 [])))"

section \<open>Responses (\<^verbatim>\<open>Response\<close>)\<close>

text \<open>
  \<^verbatim>\<open>Response\<close>, with the defaults of the class. The status code is an \<^verbatim>\<open>uint\<close>.
\<close>

record Response =
  resVersion :: string
  statusCode :: "32 word"
  statusReason :: string
  resHeaders :: "string \<rightharpoonup> string"
  body :: string

definition default_Response :: Response where
  "default_Response =
     \<lparr>resVersion = ''HTTP/1.1'', statusCode = 200, statusReason = ''OK'',
      resHeaders = Map.empty, body = []\<rparr>"

definition setStatusCode :: "Response \<Rightarrow> 32 word \<Rightarrow> Response" where
  "setStatusCode r newstatuscode = r\<lparr>statusCode := newstatuscode\<rparr>"

definition setStatusReason :: "Response \<Rightarrow> string \<Rightarrow> Response" where
  "setStatusReason r newstatusreason = r\<lparr>statusReason := newstatusreason\<rparr>"

definition setContentType :: "Response \<Rightarrow> string \<Rightarrow> Response" where
  "setContentType r newcontenttype =
     r\<lparr>resHeaders := (resHeaders r)(''Content-Type'' \<mapsto> newcontenttype)\<rparr>"

definition setBody :: "Response \<Rightarrow> string \<Rightarrow> Response" where
  "setBody r newbody =
     r\<lparr>body := newbody,
       resHeaders := (resHeaders r)(''Content-Length'' \<mapsto> dec (length newbody))\<rparr>"

subsection \<open>The \<^verbatim>\<open>Date\<close> header\<close>

text \<open>
  \<^verbatim>\<open>setDate\<close> and \<^verbatim>\<open>getDate\<close> are written with functions of the C and C++ libraries:
  \<^verbatim>\<open>to_time_t\<close>, \<^verbatim>\<open>gmtime\<close>, \<^verbatim>\<open>put_time\<close>, \<^verbatim>\<open>get_time\<close>, \<^verbatim>\<open>mktime\<close>,
  \<^verbatim>\<open>from_time_t\<close>. They are modelled here in the C locale, for the proleptic Gregorian
  calendar. A time point is its count of nanoseconds since the epoch, a \<^verbatim>\<open>time_t\<close> a
  count of seconds.
\<close>

record tm =
  tm_sec :: int
  tm_min :: int
  tm_hour :: int
  tm_mday :: int
  tm_mon :: int
  tm_year :: int
  tm_wday :: int
  tm_yday :: int
  tm_isdst :: int

text \<open>
  The conversion to seconds truncates towards zero. The nanosecond count of the library is
  a 64-bit integer; its overflow (time points beyond the year 2262) is not modelled.
\<close>

definition to_time_t :: "int \<Rightarrow> int" where
  "to_time_t tp = (if 0 \<le> tp then tp div 1000000000 else - ((- tp) div 1000000000))"

definition from_time_t :: "int \<Rightarrow> int" where
  "from_time_t t = t * 1000000000"

text \<open>Days since 1970-01-01 of a date, and the date of a number of days.\<close>

definition days_from_civil :: "int \<Rightarrow> int \<Rightarrow> int \<Rightarrow> int" where
  "days_from_civil y m d =
     (let y' = (if m \<le> 2 then y - 1 else y);
          era = y' div 400;
          yoe = y' - era * 400;
          doy = (153 * (if m > 2 then m - 3 else m + 9) + 2) div 5 + d - 1;
          doe = yoe * 365 + yoe div 4 - yoe div 100 + doy
      in era * 146097 + doe - 719468)"

definition civil_from_days :: "int \<Rightarrow> int \<times> int \<times> int" where
  "civil_from_days z0 =
     (let z = z0 + 719468;
          era = z div 146097;
          doe = z - era * 146097;
          yoe = (doe - doe div 1460 + doe div 36524 - doe div 146096) div 365;
          doy = doe - (365 * yoe + yoe div 4 - yoe div 100);
          mp = (5 * doy + 2) div 153;
          d = doy - (153 * mp + 2) div 5 + 1;
          m = (if mp < 10 then mp + 3 else mp - 9);
          y = yoe + era * 400 + (if m \<le> 2 then 1 else 0)
      in (y, m, d))"

text \<open>\<^verbatim>\<open>gmtime\<close> breaks a \<^verbatim>\<open>time_t\<close> down as UTC.\<close>

definition gmtime :: "int \<Rightarrow> tm" where
  "gmtime t =
     (let days = t div 86400;
          secs = t mod 86400;
          (y, m, d) = civil_from_days days
      in \<lparr>tm_sec = secs mod 60, tm_min = (secs div 60) mod 60, tm_hour = secs div 3600,
          tm_mday = d, tm_mon = m - 1, tm_year = y - 1900, tm_wday = (days + 4) mod 7,
          tm_yday = days - days_from_civil y 1 1, tm_isdst = 0\<rparr>)"

text \<open>
  \<^verbatim>\<open>mktime\<close> reads the fields of a \<^verbatim>\<open>tm\<close> as local time. The time zone of the process
  is a parameter: \<open>utc_offset\<close> is the number of seconds local standard time is ahead of
  UTC (\<^verbatim>\<open>getDate\<close> passes \<^verbatim>\<open>tm_isdst = 0\<close>).
\<close>

definition mktime :: "int \<Rightarrow> tm \<Rightarrow> int" where
  "mktime utc_offset t =
     days_from_civil (1900 + tm_year t) (tm_mon t + 1) (tm_mday t) * 86400
       + tm_hour t * 3600 + tm_min t * 60 + tm_sec t - utc_offset"

text \<open>\<^verbatim>\<open>put_time\<close> with the format \<^verbatim>\<open>%a, %d %b %Y %H:%M:%S GMT\<close>.\<close>

definition wday_names :: "string list" where
  "wday_names = [''Sun'', ''Mon'', ''Tue'', ''Wed'', ''Thu'', ''Fri'', ''Sat'']"

definition mon_names :: "string list" where
  "mon_names = [''Jan'', ''Feb'', ''Mar'', ''Apr'', ''May'', ''Jun'',
                ''Jul'', ''Aug'', ''Sep'', ''Oct'', ''Nov'', ''Dec'']"

definition two_digits :: "int \<Rightarrow> string" where
  "two_digits n = [char_of (48 + n div 10), char_of (48 + n mod 10)]"

definition put_time :: "tm \<Rightarrow> string" where
  "put_time t =
     wday_names ! nat (tm_wday t) @ '', '' @ two_digits (tm_mday t) @ '' ''
       @ mon_names ! nat (tm_mon t) @ '' '' @ to_string (1900 + tm_year t) @ '' ''
       @ two_digits (tm_hour t) @ '':'' @ two_digits (tm_min t) @ '':'' @ two_digits (tm_sec t)
       @ '' GMT''"

text \<open>
  \<^verbatim>\<open>get_time\<close> with the format \<^verbatim>\<open>%a, %d %b %Y %H:%M:%S\<close>, for strings in the layout that
  \<^verbatim>\<open>put_time\<close> writes with a year of four digits; what follows the seconds is not read,
  and a field out of its range fails. (The library accepts other spellings too, a day of
  one digit for one, which are \<open>None\<close> here.)
\<close>

fun index_of :: "string \<Rightarrow> string list \<Rightarrow> int option" where
  "index_of x [] = None"
| "index_of x (y # ys) = (if x = y then Some 0 else map_option (\<lambda>i. i + 1) (index_of x ys))"

fun number :: "string \<Rightarrow> int \<Rightarrow> int option" where
  "number [] acc = Some acc"
| "number (c # cs) acc =
     (if (48::int) \<le> of_char c \<and> (of_char c :: int) \<le> 57
      then number cs (acc * 10 + (of_char c - 48)) else None)"

definition get_time :: "string \<Rightarrow> tm option" where
  "get_time s =
     (if length s < 25 \<or> take 2 (drop 3 s) \<noteq> '', '' \<or> s ! 7 \<noteq> CHR '' '' \<or> s ! 11 \<noteq> CHR '' ''
         \<or> s ! 16 \<noteq> CHR '' '' \<or> s ! 19 \<noteq> CHR '':'' \<or> s ! 22 \<noteq> CHR '':'' then None
      else
        (case (index_of (take 3 s) wday_names, number (take 2 (drop 5 s)) 0,
               index_of (take 3 (drop 8 s)) mon_names, number (take 4 (drop 12 s)) 0,
               number (take 2 (drop 17 s)) 0, number (take 2 (drop 20 s)) 0,
               number (take 2 (drop 23 s)) 0) of
           (Some wd, Some d, Some mo, Some y, Some h, Some mi, Some se) \<Rightarrow>
             if 1 \<le> d \<and> d \<le> 31 \<and> h \<le> 23 \<and> mi \<le> 59 \<and> se \<le> 60 then
               Some \<lparr>tm_sec = se, tm_min = mi, tm_hour = h, tm_mday = d, tm_mon = mo,
                     tm_year = y - 1900, tm_wday = wd, tm_yday = 0, tm_isdst = 0\<rparr>
             else None
         | _ \<Rightarrow> None))"

text \<open>The two accessors of the response.\<close>

definition setDate :: "Response \<Rightarrow> int \<Rightarrow> Response" where
  "setDate r newdate =
     r\<lparr>resHeaders := (resHeaders r)(''Date'' \<mapsto> put_time (gmtime (to_time_t newdate)))\<rparr>"

definition getDate :: "int \<Rightarrow> Response \<Rightarrow> int option" where
  "getDate utc_offset r =
     (case resHeaders r ''Date'' of
        None \<Rightarrow> None
      | Some s \<Rightarrow>
          (case get_time s of
             None \<Rightarrow> None
           | Some date_tm \<Rightarrow> Some (from_time_t (mktime utc_offset date_tm))))"

section \<open>Connections\<close>

datatype Stage = REQ | FUNC | RES

record ConnectionState =
  fd :: int
  stage :: Stage
  reqBuffer :: Buffer
  resBuffer :: Buffer
  request :: Request
  response :: Response

text \<open>
  The state the event loop stores for an accepted socket:
  \<^verbatim>\<open>ConnectionState{.fd = ..., .stage = Stage::REQ}\<close>, everything else default.
\<close>

definition new_connection :: "int \<Rightarrow> ConnectionState" where
  "new_connection conSockfd =
     \<lparr>fd = conSockfd, stage = REQ, reqBuffer = fresh, resBuffer = fresh,
      request = empty_Request, response = default_Response\<rparr>"

definition sockBufferSize :: int where
  "sockBufferSize = 8192"

definition maxHeaderSize :: int where
  "maxHeaderSize = 8192"

subsection \<open>\<^verbatim>\<open>Server::ProcessRequest\<close>\<close>

text \<open>
  What one call of \<^verbatim>\<open>recv\<close> on the socket of the connection can give: \<open>n \<ge> 0\<close>
  bytes (at most \<^verbatim>\<open>sockBufferSize\<close> of them), the \<^verbatim>\<open>EAGAIN\<close>/\<^verbatim>\<open>EWOULDBLOCK\<close> that
  the loop tests for, or another error. (\<^verbatim>\<open>Serve\<close> does not make the accepted socket
  non-blocking, so it is the other error that ends the loop on such a socket.)
  The socket is the environment of the function: it is modelled by the list of the results
  of the successive calls.
\<close>

datatype recv_result = Received string | WouldBlock | RecvError

text \<open>
  The received bytes are NUL-terminated in the local array and appended with
  \<^verbatim>\<open>operator+=(const char*)\<close>, which copies up to the first NUL byte.
\<close>

definition c_str :: "string \<Rightarrow> string" where
  "c_str bytes = takeWhile (\<lambda>c. c \<noteq> CHR 0x00) bytes"

definition bad_request :: "ConnectionState \<Rightarrow> string \<Rightarrow> ConnectionState" where
  "bad_request state what =
     state\<lparr>response :=
             setBody (setContentType (setStatusReason (setStatusCode (response state) 400)
               ''Bad Request'') ''text/plain'') what,
           stage := RES\<rparr>"

text \<open>
  The loop runs until \<^verbatim>\<open>recv\<close> fails or the parser or the size check throws; each
  iteration takes one result of \<^verbatim>\<open>recv\<close>. \<open>None\<close>: the loop is still running when the
  listed results are used up.
\<close>

fun ProcessRequest :: "recv_result list \<Rightarrow> ConnectionState \<Rightarrow> (bool \<times> ConnectionState) option" where
  "ProcessRequest [] state = None"
| "ProcessRequest (WouldBlock # rest) state = Some (True, state)"
| "ProcessRequest (RecvError # rest) state = Some (False, state)"
| "ProcessRequest (Received bytes # rest) state =
     (case DeserializeRequest (plus_assign (reqBuffer state) (c_str bytes)) (request state) of
        Threw what b r \<Rightarrow>
          Some (True, bad_request (state\<lparr>reqBuffer := b, request := r\<rparr>) what)
      | Returned ex b r \<Rightarrow>
          if sizeBeforeCursor b > maxHeaderSize then
            Some (True, bad_request (state\<lparr>reqBuffer := b, request := r\<rparr>)
                          ''Header size exceeds defined maximum size'')
          else ProcessRequest rest (state\<lparr>reqBuffer := b, request := r\<rparr>))"

subsection \<open>\<^verbatim>\<open>Server::ProcessFunction\<close>\<close>

text \<open>
  The route table maps a path to a map from methods to handlers (a type parameter here).
  \<^verbatim>\<open>find\<close> gives an iterator, \<open>None\<close> for \<^verbatim>\<open>end()\<close>; reading \<^verbatim>\<open>->second\<close> of the end
  iterator is undefined behaviour. A handler takes the request and the response by value, so
  running it leaves the connection state as it is; the model records which handler ran.
\<close>

datatype 'h function_result =
  UndefinedBehaviour | Finished bool ConnectionState "'h option"

definition not_found :: "ConnectionState \<Rightarrow> ConnectionState" where
  "not_found state =
     state\<lparr>response :=
             setBody (setContentType (setStatusReason (setStatusCode (response state) 404)
               ''Not Found'') ''text/plain'')
               (''The requested resource '' @ path (request state)
                 @ '' was not found on this server''),
           stage := RES\<rparr>"

definition method_not_allowed :: "ConnectionState \<Rightarrow> ConnectionState" where
  "method_not_allowed state =
     state\<lparr>response :=
             setBody (setContentType (setStatusReason (setStatusCode (response state) 405)
               ''Method Not Allowed'') ''text/plain'')
               (''The method '' @ type (request state)
                 @ '' is not allowed for the requested resource''),
           stage := RES\<rparr>"

definition ProcessFunction ::
  "(string \<rightharpoonup> (string \<rightharpoonup> 'h)) \<Rightarrow> ConnectionState \<Rightarrow> 'h function_result" where
  "ProcessFunction routeMap state =
     (let routeIter = routeMap (path (request state)) in
      if routeIter \<noteq> None then Finished True (not_found state) None
      else
        (case routeIter of
           None \<Rightarrow> UndefinedBehaviour
         | Some methods \<Rightarrow>
             (let handlerIter = methods (type (request state)) in
              if handlerIter \<noteq> None then Finished True (method_not_allowed state) None
              else
                (case handlerIter of
                   None \<Rightarrow> UndefinedBehaviour
                 | Some handler \<Rightarrow> Finished True state (Some handler)))))"

subsection \<open>The dispatch of one event in \<^verbatim>\<open>Server::Serve\<close>\<close>

text \<open>The event bits, with their Linux values (\<^verbatim>\<open>sys/epoll.h\<close>).\<close>

definition EPOLLIN :: "32 word" where
  "EPOLLIN = 0x001"

definition EPOLLOUT :: "32 word" where
  "EPOLLOUT = 0x004"

definition EPOLLERR :: "32 word" where
  "EPOLLERR = 0x008"

definition EPOLLHUP :: "32 word" where
  "EPOLLHUP = 0x010"

record epoll_event =
  events :: "32 word"
  data_fd :: int

text \<open>
  What the loop does with an event that is not on the listening socket: the branch of
  \<^verbatim>\<open>Serve\<close> that the event takes.
\<close>

datatype dispatch =
  Deregister | Erase | CallProcessRequest | CallProcessResponse | Nothing

definition connection_event :: "(int \<rightharpoonup> ConnectionState) \<Rightarrow> epoll_event \<Rightarrow> dispatch" where
  "connection_event conStateMap ev =
     (case conStateMap (data_fd ev) of
        None \<Rightarrow> Deregister
      | Some state \<Rightarrow>
          if events ev AND EPOLLERR \<noteq> 0 \<or> events ev AND EPOLLHUP \<noteq> 0 then Erase
          else
            (case stage state of
               REQ \<Rightarrow> if events ev AND EPOLLIN \<noteq> 0 then CallProcessRequest else Nothing
             | FUNC \<Rightarrow> Nothing
             | RES \<Rightarrow> if events ev AND EPOLLIN \<noteq> 0 then CallProcessResponse else Nothing))"


section \<open>Reading results, and the inputs used below\<close>

fun out_exit :: "outcome \<Rightarrow> parse_exit option" where
  "out_exit (Threw what b r) = None"
| "out_exit (Returned ex b r) = Some ex"

fun out_buffer :: "outcome \<Rightarrow> Buffer" where
  "out_buffer (Threw what b r) = b"
| "out_buffer (Returned ex b r) = b"

fun out_request :: "outcome \<Rightarrow> Request" where
  "out_request (Threw what b r) = r"
| "out_request (Returned ex b r) = r"

fun out_what :: "outcome \<Rightarrow> string option" where
  "out_what (Threw what b r) = Some what"
| "out_what (Returned ex b r) = None"

text \<open>The stage of the connection after a step that returned.\<close>

definition stage_after :: "(bool \<times> ConnectionState) option \<Rightarrow> Stage option" where
  "stage_after res = map_option (stage \<circ> snd) res"

text \<open>A request with one header, and one with none.\<close>

definition host_request :: string where
  "host_request = ''GET /ping HTTP/1.1'' @ [CR, LF] @ ''Host: x'' @ [CR, LF] @ [CR, LF]"

definition plain_request :: string where
  "plain_request = ''GET / HTTP/1.1'' @ [CR, LF, CR, LF]"

text \<open>A route table with a handler (number 0) for \<^verbatim>\<open>GET /ping\<close>, and a connection
  in stage \<^verbatim>\<open>FUNC\<close> with a parsed request line.\<close>

definition ping_routes :: "string \<rightharpoonup> (string \<rightharpoonup> nat)" where
  "ping_routes = [''/ping'' \<mapsto> [''GET'' \<mapsto> 0]]"

definition func_state :: "string \<Rightarrow> string \<Rightarrow> ConnectionState" where
  "func_state m p =
     (new_connection 5)\<lparr>stage := FUNC,
       request := \<lparr>type = m, path = p, version = ''HTTP/1.1'', headers = Map.empty\<rparr>\<rparr>"

text \<open>
  A request whose path is \<^verbatim>\<open>/\<close> and \<open>n\<close> times \<^verbatim>\<open>a\<close>. Its request line without
  the newline is \<open>long_request_line n\<close>, of \<open>n + 14\<close> bytes; with the two newlines
  behind it, it is a header block of \<open>n + 16\<close> bytes. Then the request that the parser
  makes of it, and the connection after the block has been parsed.
\<close>

definition long_request_line :: "nat \<Rightarrow> string" where
  "long_request_line n = ''GET /'' @ replicate n (CHR ''a'') @ '' HTTP/1.1''"

definition long_path_request :: "nat \<Rightarrow> string \<Rightarrow> Request" where
  "long_path_request n v =
     \<lparr>type = ''ET'', path = CHR ''/'' # replicate n (CHR ''a''), version = v,
      headers = Map.empty\<rparr>"

definition long_request_parsed :: "nat \<Rightarrow> ConnectionState" where
  "long_request_parsed n =
     (new_connection 5)
       \<lparr>reqBuffer := \<lparr>buffer = long_request_line n @ [LF, LF], headCursor = int n + 15,
                       rollbackCursor = int n + 15\<rparr>,
        request := long_path_request n ''HTTP/1.1''\<rparr>"

section \<open>Feeding the parser in pieces\<close>

text \<open>
  The parser is called after every \<^verbatim>\<open>recv\<close>. \<open>feed b r x xs\<close> appends the pieces
  \<open>x, xs\<close> to the buffer one at a time, with a call of the parser after each; a
  \<^verbatim>\<open>throw\<close> ends the run, as it ends \<^verbatim>\<open>ProcessRequest\<close>.
\<close>

fun feed :: "Buffer \<Rightarrow> Request \<Rightarrow> string \<Rightarrow> string list \<Rightarrow> outcome" where
  "feed b r x [] = DeserializeRequest (plus_assign b x) r"
| "feed b r x (y # ys) =
     (case DeserializeRequest (plus_assign b x) r of
        Threw what b' r' \<Rightarrow> Threw what b' r'
      | Returned ex b' r' \<Rightarrow> feed b' r' y ys)"

text \<open>
  What a caller can see of a call, the headers apart: the message of the exception, the exit
  taken, the two cursors, and method, path and version.
\<close>

definition observe ::
  "outcome \<Rightarrow> string option \<times> parse_exit option \<times> int \<times> int \<times> string \<times> string \<times> string" where
  "observe out =
     (out_what out, out_exit out, headCursor (out_buffer out), rollbackCursor (out_buffer out),
      type (out_request out), path (out_request out), version (out_request out))"

text \<open>
  The parser decides where to go on by looking for empty fields. A call that ran out of
  bytes while reading some part of the request can be continued when the parts before it
  are not empty strings.
\<close>

fun tokens_ok :: "phase \<Rightarrow> Request \<Rightarrow> bool" where
  "tokens_ok InType r = True"
| "tokens_ok InPath r = (type r \<noteq> [])"
| "tokens_ok InVersion r = (type r \<noteq> [] \<and> path r \<noteq> [])"
| "tokens_ok InHeaders r = (type r \<noteq> [] \<and> path r \<noteq> [] \<and> version r \<noteq> [])"

text \<open>
  A run in pieces in which every call but the last either threw or ran out of bytes and can
  be continued; no call before the last reached the end of the header block.
\<close>

fun resumable :: "Buffer \<Rightarrow> Request \<Rightarrow> string \<Rightarrow> string list \<Rightarrow> bool" where
  "resumable b r x [] = True"
| "resumable b r x (y # ys) =
     (case DeserializeRequest (plus_assign b x) r of
        Threw what b' r' \<Rightarrow> True
      | Returned Complete b' r' \<Rightarrow> False
      | Returned (NeedMore ph) b' r' \<Rightarrow> tokens_ok ph r' \<and> resumable b' r' y ys)"

section \<open>Notions used in the proofs\<close>

text \<open>The parser from the block that reads the path on, and from the version on.\<close>

definition from_version :: "Buffer \<Rightarrow> Request \<Rightarrow> outcome" where
  "from_version b r =
     (case parse_version b r of
        Inl out \<Rightarrow> out
      | Inr (b3, r3) \<Rightarrow> headers_loop b3 r3 [])"

definition from_path :: "Buffer \<Rightarrow> Request \<Rightarrow> outcome" where
  "from_path b r =
     (case parse_path b r of
        Inl out \<Rightarrow> out
      | Inr (b2, r2) \<Rightarrow> from_version b2 r2)"

text \<open>
  A string that can stand for the string of a buffer: at least as long, with the same bytes
  behind the head cursor.
\<close>

definition agrees :: "Buffer \<Rightarrow> string \<Rightarrow> bool" where
  "agrees b s' =
     (length (buffer b) \<le> length s'
      \<and> (\<forall>j. headCursor b < int j \<and> j < length (buffer b) \<longrightarrow> s' ! j = buffer b ! j))"

fun replace_buffer :: "string \<Rightarrow> outcome \<Rightarrow> outcome" where
  "replace_buffer s (Threw what b r) = Threw what (b\<lparr>buffer := s\<rparr>) r"
| "replace_buffer s (Returned ex b r) = Returned ex (b\<lparr>buffer := s\<rparr>) r"

text \<open>
  The bytes between the rollback cursor and the head cursor are bytes that the header loop
  reads and drops.
\<close>

definition scanned :: "Buffer \<Rightarrow> bool" where
  "scanned b =
     (rollbackCursor b \<le> headCursor b
      \<and> (\<forall>j. rollbackCursor b < j \<and> j \<le> headCursor b \<longrightarrow>
            lt_size j (buffer b) \<and> buffer b ! nat j \<noteq> LF \<and> buffer b ! nat j \<noteq> CHR '':''))"

definition needs_more :: "outcome \<Rightarrow> bool" where
  "needs_more out = (\<exists>ph. out_exit out = Some (NeedMore ph))"

section \<open>Properties of the parse buffer\<close>

lemma apply_op_in_range: "cursors_in_range b \<Longrightarrow> cursors_in_range (apply_op b x)"
  by (cases x)
     (auto simp: cursors_in_range_def assign_def plus_assign_def next_char_def rollback_def
        commit_def reset_def set_cursor_def increment_def lt_size_def Let_def)

lemma apply_op_ordered:
  "cursors_ordered b \<Longrightarrow> forward_op x \<Longrightarrow> cursors_ordered (apply_op b x)"
  by (cases x)
     (auto simp: cursors_ordered_def assign_def plus_assign_def next_char_def rollback_def
        commit_def lt_size_def Let_def)

lemma run_ops_in_range: "cursors_in_range b \<Longrightarrow> cursors_in_range (run_ops b xs)"
  by (induction xs arbitrary: b) (simp_all add: apply_op_in_range)

lemma run_ops_ordered:
  "cursors_ordered b \<Longrightarrow> list_all forward_op xs \<Longrightarrow> cursors_ordered (run_ops b xs)"
  by (induction xs arbitrary: b) (simp_all add: apply_op_ordered)

lemma ordered_in_range: "cursors_ordered b \<Longrightarrow> cursors_in_range b"
  by (auto simp: cursors_ordered_def cursors_in_range_def)

text \<open>
  C5, as stated, fails: after a commit at position 1, \<^verbatim>\<open>reset()\<close> puts the head cursor
  back to 0 and leaves the rollback cursor at 1.
\<close>

theorem C5_reset_breaks_order:
  "\<not> cursors_ordered (run_ops fresh [Assign ''abc'', Next, Commit, Reset])"
  by (simp add: cursors_ordered_def fresh_def assign_def next_char_def commit_def reset_def
      lt_size_def)

text \<open>
  C5, amended: from a buffer whose cursors are ordered, every sequence of public operations
  keeps both cursors between 0 and the length of the string, and a sequence made of assign,
  append, next, rollback and commit only keeps \<open>0 \<le> rollback \<le> head \<le> len\<close>.
\<close>

theorem C5_cursor_invariant:
  assumes "cursors_ordered b"
  shows "cursors_in_range (run_ops b xs)
         \<and> (list_all forward_op xs \<longrightarrow> cursors_ordered (run_ops b xs))"
  using assms run_ops_in_range [OF ordered_in_range] run_ops_ordered by blast

theorem C5_cursor_invariant_witness:
  "cursors_ordered fresh
   \<and> cursors_in_range (run_ops fresh [Assign ''abc'', Next, Commit, Reset])
   \<and> list_all forward_op [Assign ''abc'', Next, Commit, Append ''de'', Next, Rollback]
   \<and> cursors_ordered (run_ops fresh [Assign ''abc'', Next, Commit, Append ''de'', Next, Rollback])"
proof -
  have h: "cursors_ordered fresh"
    by (simp add: cursors_ordered_def fresh_def)
  have f: "list_all forward_op [Assign ''abc'', Next, Commit, Append ''de'', Next, Rollback]"
    by simp
  show ?thesis
    using h f C5_cursor_invariant [OF h, of "[Assign ''abc'', Next, Commit, Reset]"]
      C5_cursor_invariant [OF h, of "[Assign ''abc'', Next, Commit, Append ''de'', Next, Rollback]"]
    by blast
qed

section \<open>The loops of the parser\<close>

lemma buffer_update_inward [simp]:
  "b\<lparr>headCursor := h, buffer := s\<rparr> = b\<lparr>buffer := s, headCursor := h\<rparr>"
  "b\<lparr>rollbackCursor := h, buffer := s\<rparr> = b\<lparr>buffer := s, rollbackCursor := h\<rparr>"
  by simp_all

subsection \<open>One step of each loop\<close>

lemma next_char_None:
  "\<not> lt_size (headCursor b + 1) (buffer b) \<Longrightarrow> next_char b = (None, b)"
  by (simp add: next_char_def Let_def)

lemma next_char_Some:
  "lt_size (headCursor b + 1) (buffer b) \<Longrightarrow>
   next_char b = (Some (buffer b ! nat (headCursor b + 1)), b\<lparr>headCursor := headCursor b + 1\<rparr>)"
  by (simp add: next_char_def Let_def)

lemma read_until_space_None:
  "\<not> lt_size (headCursor b + 1) (buffer b) \<Longrightarrow> read_until_space b acc = (rollback b, None)"
  by (subst read_until_space.simps) (simp add: next_char_None)

lemma read_until_space_Some:
  "lt_size (headCursor b + 1) (buffer b) \<Longrightarrow>
   read_until_space b acc =
     (if buffer b ! nat (headCursor b + 1) = CHR '' ''
      then (commit (b\<lparr>headCursor := headCursor b + 1\<rparr>), Some acc)
      else read_until_space (b\<lparr>headCursor := headCursor b + 1\<rparr>)
             (acc @ [buffer b ! nat (headCursor b + 1)]))"
  by (subst read_until_space.simps) (simp add: next_char_Some)

lemma read_until_newline_None:
  "\<not> lt_size (headCursor b + 1) (buffer b) \<Longrightarrow> read_until_newline b acc = (rollback b, None)"
  by (subst read_until_newline.simps) (simp add: next_char_None)

lemma read_until_newline_Some:
  "lt_size (headCursor b + 1) (buffer b) \<Longrightarrow>
   read_until_newline b acc =
     (if buffer b ! nat (headCursor b + 1) = CR
      then read_until_newline (b\<lparr>headCursor := headCursor b + 1\<rparr>) acc
      else if buffer b ! nat (headCursor b + 1) = LF
      then (commit (b\<lparr>headCursor := headCursor b + 1\<rparr>), Some acc)
      else read_until_newline (b\<lparr>headCursor := headCursor b + 1\<rparr>)
             (acc @ [buffer b ! nat (headCursor b + 1)]))"
  by (subst read_until_newline.simps) (simp add: next_char_Some)


lemma headers_loop_None:
  "\<not> lt_size (headCursor b + 1) (buffer b) \<Longrightarrow>
   headers_loop b r i = Returned (NeedMore InHeaders) (rollback b) r"
  by (subst headers_loop.simps) (simp add: next_char_None)

lemma headers_loop_skip:
  "lt_size (headCursor b + 1) (buffer b) \<Longrightarrow> buffer b ! nat (headCursor b + 1) \<noteq> LF \<Longrightarrow>
   buffer b ! nat (headCursor b + 1) \<noteq> CHR '':'' \<Longrightarrow>
   headers_loop b r i = headers_loop (b\<lparr>headCursor := headCursor b + 1\<rparr>) r i"
  by (subst headers_loop.simps) (simp add: next_char_Some)

lemma headers_loop_LF:
  "lt_size (headCursor b + 1) (buffer b) \<Longrightarrow> buffer b ! nat (headCursor b + 1) = LF \<Longrightarrow>
   headers_loop b r i = Returned Complete (commit (b\<lparr>headCursor := headCursor b + 1\<rparr>)) r"
  by (subst headers_loop.simps) (simp add: next_char_Some CR_def LF_def)

lemma headers_loop_colon_None:
  "lt_size (headCursor b + 1) (buffer b) \<Longrightarrow> buffer b ! nat (headCursor b + 1) = CHR '':'' \<Longrightarrow>
   \<not> lt_size (headCursor b + 2) (buffer b) \<Longrightarrow>
   headers_loop b r i = Returned (NeedMore InHeaders) (rollback b) r"
  by (subst headers_loop.simps)
     (simp add: next_char_def Let_def CR_def LF_def rollback_def add.commute)

lemma headers_loop_colon_Some:
  "lt_size (headCursor b + 1) (buffer b) \<Longrightarrow> buffer b ! nat (headCursor b + 1) = CHR '':'' \<Longrightarrow>
   lt_size (headCursor b + 2) (buffer b) \<Longrightarrow>
   headers_loop b r i =
     (if buffer b ! nat (headCursor b + 2) \<noteq> CHR '' '' then
        Threw (''Expected space (' ') character after colon (':'). Got ''
               @ to_string (char_to_int (buffer b ! nat (headCursor b + 2))))
          (b\<lparr>headCursor := headCursor b + 2\<rparr>) r
      else
        (case read_until_newline (b\<lparr>headCursor := headCursor b + 2\<rparr>) [] of
           (b3, None) \<Rightarrow> Returned (NeedMore InHeaders) b3 r
         | (b3, Some val) \<Rightarrow> headers_loop b3 (setHeader r i val) [LF]))"
  by (subst headers_loop.simps)
     (simp add: next_char_def Let_def CR_def LF_def add.commute)

subsection \<open>What the loops leave behind\<close>

lemma read_until_space_result:
  "read_until_space b acc = (b', t) \<Longrightarrow>
     buffer b' = buffer b
     \<and> (case t of
          None \<Rightarrow> b' = rollback b
        | Some tok \<Rightarrow> headCursor b < headCursor b' \<and> rollbackCursor b' = headCursor b'
            \<and> lt_size (headCursor b') (buffer b))"
proof (induction b acc rule: read_until_space.induct)
  case (1 b acc)
  show ?case
  proof (cases "lt_size (headCursor b + 1) (buffer b)")
    case False
    with "1.prems" show ?thesis
      by (auto simp: read_until_space_None rollback_def)
  next
    case True
    show ?thesis
    proof (cases "buffer b ! nat (headCursor b + 1) = CHR '' ''")
      case sp: True
      with True "1.prems" show ?thesis
        by (auto simp: read_until_space_Some commit_def)
    next
      case nsp: False
      from "1.IH" [OF next_char_Some [OF True, symmetric] refl nsp] "1.prems" True nsp
      show ?thesis
        by (auto simp: read_until_space_Some rollback_def split: option.splits)
    qed
  qed
qed

lemma read_until_newline_result:
  "read_until_newline b acc = (b', t) \<Longrightarrow>
     buffer b' = buffer b
     \<and> (case t of
          None \<Rightarrow> b' = rollback b
        | Some tok \<Rightarrow> headCursor b < headCursor b' \<and> rollbackCursor b' = headCursor b'
            \<and> lt_size (headCursor b') (buffer b))"
proof (induction b acc rule: read_until_newline.induct)
  case (1 b acc)
  let ?c = "buffer b ! nat (headCursor b + 1)"
  show ?case
  proof (cases "lt_size (headCursor b + 1) (buffer b)")
    case False
    with "1.prems" show ?thesis
      by (auto simp: read_until_newline_None rollback_def)
  next
    case True
    note nc = next_char_Some [OF True, symmetric]
    consider (cr) "?c = CR" | (lf) "?c \<noteq> CR" "?c = LF" | (other) "?c \<noteq> CR" "?c \<noteq> LF"
      by blast
    then show ?thesis
    proof cases
      case cr
      from "1.IH"(1) [OF nc refl cr] "1.prems" True cr show ?thesis
        by (auto simp: read_until_newline_Some rollback_def split: option.splits)
    next
      case lf
      with True "1.prems" show ?thesis
        by (auto simp: read_until_newline_Some commit_def)
    next
      case other
      from "1.IH"(2) [OF nc refl other] "1.prems" True other show ?thesis
        by (auto simp: read_until_newline_Some rollback_def split: option.splits)
    qed
  qed
qed


subsection \<open>Induction rules in terms of the bytes read\<close>

lemma spaces_induct [case_names step]:
  assumes "\<And>(b::Buffer) acc.
     (lt_size (headCursor b + 1) (buffer b) \<Longrightarrow> buffer b ! nat (headCursor b + 1) \<noteq> CHR '' '' \<Longrightarrow>
        P (b\<lparr>headCursor := headCursor b + 1\<rparr>) (acc @ [buffer b ! nat (headCursor b + 1)]))
     \<Longrightarrow> P b acc"
  shows "P b acc"
proof (induction b acc rule: read_until_space.induct)
  case (1 b acc)
  show ?case
  proof (rule assms)
    assume a: "lt_size (headCursor b + 1) (buffer b)"
      "buffer b ! nat (headCursor b + 1) \<noteq> CHR '' ''"
    from "1.IH" [OF next_char_Some [OF a(1), symmetric] refl a(2)]
    show "P (b\<lparr>headCursor := headCursor b + 1\<rparr>) (acc @ [buffer b ! nat (headCursor b + 1)])" .
  qed
qed

lemma newline_induct [case_names step]:
  assumes "\<And>(b::Buffer) acc.
     (lt_size (headCursor b + 1) (buffer b) \<Longrightarrow> buffer b ! nat (headCursor b + 1) = CR \<Longrightarrow>
        P (b\<lparr>headCursor := headCursor b + 1\<rparr>) acc) \<Longrightarrow>
     (lt_size (headCursor b + 1) (buffer b) \<Longrightarrow> buffer b ! nat (headCursor b + 1) \<noteq> CR \<Longrightarrow>
      buffer b ! nat (headCursor b + 1) \<noteq> LF \<Longrightarrow>
        P (b\<lparr>headCursor := headCursor b + 1\<rparr>) (acc @ [buffer b ! nat (headCursor b + 1)]))
     \<Longrightarrow> P b acc"
  shows "P b acc"
proof (induction b acc rule: read_until_newline.induct)
  case (1 b acc)
  show ?case
  proof (rule assms)
    assume a: "lt_size (headCursor b + 1) (buffer b)" "buffer b ! nat (headCursor b + 1) = CR"
    from "1.IH"(1) [OF next_char_Some [OF a(1), symmetric] refl a(2)]
    show "P (b\<lparr>headCursor := headCursor b + 1\<rparr>) acc" .
  next
    assume a: "lt_size (headCursor b + 1) (buffer b)" "buffer b ! nat (headCursor b + 1) \<noteq> CR"
      "buffer b ! nat (headCursor b + 1) \<noteq> LF"
    from "1.IH"(2) [OF next_char_Some [OF a(1), symmetric] refl a(2,3)]
    show "P (b\<lparr>headCursor := headCursor b + 1\<rparr>) (acc @ [buffer b ! nat (headCursor b + 1)])" .
  qed
qed

lemma headers_induct [case_names step]:
  assumes "\<And>(b::Buffer) r i.
     (lt_size (headCursor b + 1) (buffer b) \<Longrightarrow> buffer b ! nat (headCursor b + 1) \<noteq> LF \<Longrightarrow>
      buffer b ! nat (headCursor b + 1) \<noteq> CHR '':'' \<Longrightarrow>
        P (b\<lparr>headCursor := headCursor b + 1\<rparr>) r i) \<Longrightarrow>
     (\<And>b3 val. lt_size (headCursor b + 1) (buffer b) \<Longrightarrow>
        buffer b ! nat (headCursor b + 1) = CHR '':'' \<Longrightarrow>
        lt_size (headCursor b + 2) (buffer b) \<Longrightarrow>
        buffer b ! nat (headCursor b + 2) = CHR '' '' \<Longrightarrow>
        read_until_newline (b\<lparr>headCursor := headCursor b + 2\<rparr>) [] = (b3, Some val) \<Longrightarrow>
        P b3 (setHeader r i val) [LF])
     \<Longrightarrow> P b r i"
  shows "P b r i"
proof (induction b r i rule: headers_loop.induct)
  case (1 b r i)
  let ?c = "buffer b ! nat (headCursor b + 1)"
  let ?b1 = "b\<lparr>headCursor := headCursor b + 1\<rparr>"
  show ?case
  proof (rule assms)
    assume a: "lt_size (headCursor b + 1) (buffer b)" "?c \<noteq> LF" "?c \<noteq> CHR '':''"
    note nc = next_char_Some [OF a(1), symmetric]
    show "P ?b1 r i"
    proof (cases "?c = CR")
      case True
      from "1.IH"(1) [OF nc refl True] show ?thesis .
    next
      case False
      from "1.IH"(3) [OF nc refl False a(2,3)] show ?thesis .
    qed
  next
    fix b3 val
    assume a: "lt_size (headCursor b + 1) (buffer b)" "?c = CHR '':''"
      "lt_size (headCursor b + 2) (buffer b)" "buffer b ! nat (headCursor b + 2) = CHR '' ''"
      "read_until_newline (b\<lparr>headCursor := headCursor b + 2\<rparr>) [] = (b3, Some val)"
    note nc = next_char_Some [OF a(1), symmetric]
    have nc2: "(Some (CHR '' ''), b\<lparr>headCursor := headCursor b + 2\<rparr>) = next_char ?b1"
      using a(3,4) by (simp add: next_char_def Let_def add.commute)
    have c1: "?c \<noteq> CR" "?c \<noteq> LF"
      using a(2) by (simp_all add: CR_def LF_def)
    from "1.IH"(2) [OF nc refl c1 a(2) nc2 refl _ a(5) [symmetric] refl]
    show "P b3 (setHeader r i val) [LF]"
      by simp
  qed
qed


subsection \<open>Buffers that agree behind the head cursor\<close>

lemma agrees_next:
  assumes "agrees b s'" "lt_size (headCursor b + 1) (buffer b)"
  shows "lt_size (headCursor b + 1) s'" "s' ! nat (headCursor b + 1) = buffer b ! nat (headCursor b + 1)"
proof -
  from assms(2) have "nat (headCursor b + 1) < length (buffer b)"
    "headCursor b < int (nat (headCursor b + 1))"
    by (auto simp: lt_size_def)
  with assms(1) show "s' ! nat (headCursor b + 1) = buffer b ! nat (headCursor b + 1)"
    unfolding agrees_def by blast
  from assms show "lt_size (headCursor b + 1) s'"
    by (auto simp: lt_size_def agrees_def)
qed

lemma agrees_forward:
  "agrees b s' \<Longrightarrow> buffer b' = buffer b \<Longrightarrow> headCursor b \<le> headCursor b' \<Longrightarrow> agrees b' s'"
  by (auto simp: agrees_def)

lemma agrees_append: "agrees b (buffer b @ z)"
  by (simp add: agrees_def nth_append)

lemma agrees_first: "0 \<le> headCursor b \<Longrightarrow> buffer b = c # s \<Longrightarrow> agrees b (c' # s)"
  by (auto simp: agrees_def nth_Cons split: nat.splits)

lemma read_until_space_agrees:
  "agrees b s' \<Longrightarrow> length s' = length (buffer b) \<or> snd (read_until_space b acc) \<noteq> None \<Longrightarrow>
   read_until_space (b\<lparr>buffer := s'\<rparr>) acc
     = (case read_until_space b acc of (b', t) \<Rightarrow> (b'\<lparr>buffer := s'\<rparr>, t))"
proof (induction b acc rule: spaces_induct)
  case (step b acc)
  show ?case
  proof (cases "lt_size (headCursor b + 1) (buffer b)")
    case False
    with step.prems have "\<not> lt_size (headCursor b + 1) s'"
      by (auto simp: read_until_space_None lt_size_def)
    with False show ?thesis
      by (simp add: read_until_space_None rollback_def)
  next
    case True
    note a = agrees_next [OF step.prems(1) True]
    show ?thesis
    proof (cases "buffer b ! nat (headCursor b + 1) = CHR '' ''")
      case sp: True
      with True a show ?thesis
        by (simp add: read_until_space_Some commit_def)
    next
      case nsp: False
      have "agrees (b\<lparr>headCursor := headCursor b + 1\<rparr>) s'"
        using step.prems(1) by (rule agrees_forward) simp_all
      from step.IH [OF True nsp this] step.prems(2) True nsp a show ?thesis
        by (simp add: read_until_space_Some)
    qed
  qed
qed

lemma read_until_newline_agrees:
  "agrees b s' \<Longrightarrow> length s' = length (buffer b) \<or> snd (read_until_newline b acc) \<noteq> None \<Longrightarrow>
   read_until_newline (b\<lparr>buffer := s'\<rparr>) acc
     = (case read_until_newline b acc of (b', t) \<Rightarrow> (b'\<lparr>buffer := s'\<rparr>, t))"
proof (induction b acc rule: newline_induct)
  case (step b acc)
  let ?c = "buffer b ! nat (headCursor b + 1)"
  show ?case
  proof (cases "lt_size (headCursor b + 1) (buffer b)")
    case False
    with step.prems have "\<not> lt_size (headCursor b + 1) s'"
      by (auto simp: read_until_newline_None lt_size_def)
    with False show ?thesis
      by (simp add: read_until_newline_None rollback_def)
  next
    case True
    note a = agrees_next [OF step.prems(1) True]
    have ag: "agrees (b\<lparr>headCursor := headCursor b + 1\<rparr>) s'"
      using step.prems(1) by (rule agrees_forward) simp_all
    consider (cr) "?c = CR" | (lf) "?c \<noteq> CR" "?c = LF" | (other) "?c \<noteq> CR" "?c \<noteq> LF"
      by blast
    then show ?thesis
    proof cases
      case cr
      from step.IH(1) [OF True cr ag] step.prems(2) True cr a show ?thesis
        by (simp add: read_until_newline_Some)
    next
      case lf
      with True a show ?thesis
        by (simp add: read_until_newline_Some commit_def)
    next
      case other
      from step.IH(2) [OF True other ag] step.prems(2) True other a show ?thesis
        by (simp add: read_until_newline_Some)
    qed
  qed
qed

lemma headers_loop_agrees:
  "agrees b s' \<Longrightarrow>
   length s' = length (buffer b) \<or> out_exit (headers_loop b r i) \<noteq> Some (NeedMore InHeaders) \<Longrightarrow>
   headers_loop (b\<lparr>buffer := s'\<rparr>) r i = replace_buffer s' (headers_loop b r i)"
proof (induction b r i rule: headers_induct)
  case (step b r i)
  let ?c = "buffer b ! nat (headCursor b + 1)"
  let ?c2 = "buffer b ! nat (headCursor b + 2)"
  let ?b' = "b\<lparr>buffer := s'\<rparr>"
  show ?case
  proof (cases "lt_size (headCursor b + 1) (buffer b)")
    case False
    with step.prems have "\<not> lt_size (headCursor b + 1) s'"
      by (auto simp: headers_loop_None lt_size_def)
    with False show ?thesis
      by (simp add: headers_loop_None rollback_def)
  next
    case True
    note a = agrees_next [OF step.prems(1) True]
    have ag: "agrees (b\<lparr>headCursor := headCursor b + 1\<rparr>) s'"
      using step.prems(1) by (rule agrees_forward) simp_all
    consider (lf) "?c = LF" | (colon) "?c = CHR '':''" | (other) "?c \<noteq> LF" "?c \<noteq> CHR '':''"
      by blast
    then show ?thesis
    proof cases
      case lf
      with True a show ?thesis
        by (simp add: headers_loop_LF commit_def)
    next
      case other
      from step.IH(1) [OF True other ag] step.prems(2) True other a show ?thesis
        by (simp add: headers_loop_skip)
    next
      case colon
      show ?thesis
      proof (cases "lt_size (headCursor b + 2) (buffer b)")
        case no2: False
        with step.prems True colon have "\<not> lt_size (headCursor b + 2) s'"
          by (auto simp: headers_loop_colon_None lt_size_def)
        with no2 True colon a show ?thesis
          by (simp add: headers_loop_colon_None rollback_def)
      next
        case yes2: True
        have "lt_size (headCursor (b\<lparr>headCursor := headCursor b + 1\<rparr>) + 1)
                (buffer (b\<lparr>headCursor := headCursor b + 1\<rparr>))"
          using yes2 by (simp add: add.commute)
        from agrees_next [OF ag this]
        have a2: "lt_size (headCursor b + 2) s'" "s' ! nat (headCursor b + 2) = ?c2"
          by (simp_all add: add.commute)
        let ?b2 = "b\<lparr>headCursor := headCursor b + 2\<rparr>"
        have ag2: "agrees ?b2 s'"
          using step.prems(1) by (rule agrees_forward) simp_all
        show ?thesis
        proof (cases "?c2 = CHR '' ''")
          case False
          with True colon yes2 a a2 show ?thesis
            by (simp add: headers_loop_colon_Some)
        next
          case sp: True
          obtain b3 t where v: "read_until_newline ?b2 [] = (b3, t)"
            by (cases "read_until_newline ?b2 []")
          have o: "headers_loop b r i =
              (case t of None \<Rightarrow> Returned (NeedMore InHeaders) b3 r
               | Some val \<Rightarrow> headers_loop b3 (setHeader r i val) [LF])"
            using True colon yes2 sp v by (simp add: headers_loop_colon_Some)
          have "length s' = length (buffer b) \<or> t \<noteq> None"
            using step.prems(2) o by (cases t) auto
          with read_until_newline_agrees [OF ag2, of "[]"] v
          have v': "read_until_newline (?b2\<lparr>buffer := s'\<rparr>) [] = (b3\<lparr>buffer := s'\<rparr>, t)"
            by simp
          have o': "headers_loop ?b' r i =
              (case t of None \<Rightarrow> Returned (NeedMore InHeaders) (b3\<lparr>buffer := s'\<rparr>) r
               | Some val \<Rightarrow> headers_loop (b3\<lparr>buffer := s'\<rparr>) (setHeader r i val) [LF])"
            using True colon yes2 sp a a2 v' by (simp add: headers_loop_colon_Some)
          show ?thesis
          proof (cases t)
            case None
            with o o' show ?thesis by simp
          next
            case (Some val)
            from read_until_newline_result [OF v] Some
            have "buffer b3 = buffer b" "headCursor b \<le> headCursor b3"
              by auto
            with step.prems(1) have "agrees b3 s'"
              by (auto intro: agrees_forward)
            from step.IH(2) [OF True colon yes2 sp v [unfolded Some] this] step.prems(2) o o' Some
              \<open>buffer b3 = buffer b\<close>
            show ?thesis by simp
          qed
        qed
      qed
    qed
  qed
qed


subsection \<open>The header loop\<close>

lemma headers_loop_result:
  "buffer (out_buffer (headers_loop b r i)) = buffer b
   \<and> type (out_request (headers_loop b r i)) = type r
   \<and> path (out_request (headers_loop b r i)) = path r
   \<and> version (out_request (headers_loop b r i)) = version r
   \<and> (out_exit (headers_loop b r i) = None \<or> out_exit (headers_loop b r i) = Some Complete
        \<or> out_exit (headers_loop b r i) = Some (NeedMore InHeaders))
   \<and> (out_exit (headers_loop b r i) \<noteq> None \<longrightarrow>
        headCursor (out_buffer (headers_loop b r i))
          = rollbackCursor (out_buffer (headers_loop b r i)))"
proof (induction b r i rule: headers_induct)
  case (step b r i)
  let ?c = "buffer b ! nat (headCursor b + 1)"
  let ?c2 = "buffer b ! nat (headCursor b + 2)"
  show ?case
  proof (cases "lt_size (headCursor b + 1) (buffer b)")
    case False
    then show ?thesis
      by (simp add: headers_loop_None rollback_def)
  next
    case True
    consider (lf) "?c = LF" | (colon) "?c = CHR '':''" | (other) "?c \<noteq> LF" "?c \<noteq> CHR '':''"
      by blast
    then show ?thesis
    proof cases
      case lf
      with True show ?thesis
        by (simp add: headers_loop_LF commit_def)
    next
      case other
      from step.IH(1) [OF True other] True other show ?thesis
        by (simp add: headers_loop_skip)
    next
      case colon
      show ?thesis
      proof (cases "lt_size (headCursor b + 2) (buffer b)")
        case False
        with True colon show ?thesis
          by (simp add: headers_loop_colon_None rollback_def)
      next
        case yes2: True
        obtain b3 t where v: "read_until_newline (b\<lparr>headCursor := headCursor b + 2\<rparr>) [] = (b3, t)"
          by (cases "read_until_newline (b\<lparr>headCursor := headCursor b + 2\<rparr>) []")
        note res = read_until_newline_result [OF v]
        show ?thesis
        proof (cases "?c2 = CHR '' ''")
          case False
          with True colon yes2 show ?thesis
            by (simp add: headers_loop_colon_Some)
        next
          case sp: True
          show ?thesis
          proof (cases t)
            case None
            with True colon yes2 sp v res show ?thesis
              by (simp add: headers_loop_colon_Some rollback_def)
          next
            case (Some val)
            from step.IH(2) [OF True colon yes2 sp v [unfolded Some]] True colon yes2 sp v res Some
            show ?thesis
              by (simp add: headers_loop_colon_Some setHeader_def)
          qed
        qed
      qed
    qed
  qed
qed

text \<open>
  The key accumulator and the headers stored so far decide nothing but the headers stored
  next.
\<close>

lemma headers_loop_observe:
  "type r = type r' \<Longrightarrow> path r = path r' \<Longrightarrow> version r = version r' \<Longrightarrow>
   observe (headers_loop b r i) = observe (headers_loop b r' i')"
proof (induction b r i arbitrary: r' i' rule: headers_induct)
  case (step b r i)
  let ?c = "buffer b ! nat (headCursor b + 1)"
  let ?c2 = "buffer b ! nat (headCursor b + 2)"
  show ?case
  proof (cases "lt_size (headCursor b + 1) (buffer b)")
    case False
    with step.prems show ?thesis
      by (simp add: headers_loop_None observe_def)
  next
    case True
    consider (lf) "?c = LF" | (colon) "?c = CHR '':''" | (other) "?c \<noteq> LF" "?c \<noteq> CHR '':''"
      by blast
    then show ?thesis
    proof cases
      case lf
      with True step.prems show ?thesis
        by (simp add: headers_loop_LF observe_def)
    next
      case other
      from step.IH(1) [OF True other step.prems] True other show ?thesis
        by (simp add: headers_loop_skip)
    next
      case colon
      show ?thesis
      proof (cases "lt_size (headCursor b + 2) (buffer b)")
        case False
        with True colon step.prems show ?thesis
          by (simp add: headers_loop_colon_None observe_def)
      next
        case yes2: True
        obtain b3 t where v: "read_until_newline (b\<lparr>headCursor := headCursor b + 2\<rparr>) [] = (b3, t)"
          by (cases "read_until_newline (b\<lparr>headCursor := headCursor b + 2\<rparr>) []")
        show ?thesis
        proof (cases "?c2 = CHR '' ''")
          case False
          with True colon yes2 step.prems show ?thesis
            by (simp add: headers_loop_colon_Some observe_def)
        next
          case sp: True
          show ?thesis
          proof (cases t)
            case None
            with True colon yes2 sp v step.prems show ?thesis
              by (simp add: headers_loop_colon_Some observe_def)
          next
            case (Some val)
            have "observe (headers_loop b3 (setHeader r i val) [LF])
                = observe (headers_loop b3 (setHeader r' i' val) [LF])"
              using step.prems
              by (intro step.IH(2) [OF True colon yes2 sp v [unfolded Some]])
                 (simp_all add: setHeader_def)
            with True colon yes2 sp v Some show ?thesis
              by (simp add: headers_loop_colon_Some)
          qed
        qed
      qed
    qed
  qed
qed

text \<open>Bytes that are neither newline nor colon are read and dropped.\<close>

lemma headers_loop_scan:
  "k \<le> h \<Longrightarrow>
   \<forall>j. k < j \<and> j \<le> h \<longrightarrow> lt_size j (buffer b) \<and> buffer b ! nat j \<noteq> LF \<and> buffer b ! nat j \<noteq> CHR '':'' \<Longrightarrow>
   headers_loop (b\<lparr>headCursor := k\<rparr>) r i = headers_loop (b\<lparr>headCursor := h\<rparr>) r i"
proof (induction "nat (h - k)" arbitrary: k)
  case 0
  then show ?case by simp
next
  case (Suc n)
  then have lt: "k < h" by linarith
  with Suc.prems(2) have s: "lt_size (k + 1) (buffer b)" "buffer b ! nat (k + 1) \<noteq> LF"
    "buffer b ! nat (k + 1) \<noteq> CHR '':''"
    by auto
  have "headers_loop (b\<lparr>headCursor := k\<rparr>) r i = headers_loop (b\<lparr>headCursor := k + 1\<rparr>) r i"
    using s by (subst headers_loop_skip) simp_all
  also have "\<dots> = headers_loop (b\<lparr>headCursor := h\<rparr>) r i"
    using Suc.hyps(2) lt Suc.prems(2) by (intro Suc.hyps(1)) auto
  finally show ?case .
qed


text \<open>
  Between two commits the header loop keeps nothing but the position of the head cursor, so
  starting again at the rollback cursor, with more bytes in the buffer, reaches the point
  where the buffer ran out.
\<close>

lemma scanned_commit: "headCursor b = rollbackCursor b \<Longrightarrow> scanned b"
  by (auto simp: scanned_def)

lemma scanned_step:
  "scanned b \<Longrightarrow> lt_size (headCursor b + 1) (buffer b) \<Longrightarrow>
   buffer b ! nat (headCursor b + 1) \<noteq> LF \<Longrightarrow> buffer b ! nat (headCursor b + 1) \<noteq> CHR '':'' \<Longrightarrow>
   scanned (b\<lparr>headCursor := headCursor b + 1\<rparr>)"
  unfolding scanned_def
  by (auto simp: order_le_less)

lemma resume_at_rollback:
  assumes "scanned b"
  shows "observe (headers_loop (b\<lparr>buffer := buffer b @ z\<rparr>) r i)
       = observe (headers_loop ((rollback b)\<lparr>buffer := buffer b @ z\<rparr>) r [])"
proof -
  let ?b = "b\<lparr>buffer := buffer b @ z\<rparr>"
  have "\<forall>j. rollbackCursor b < j \<and> j \<le> headCursor b \<longrightarrow>
      lt_size j (buffer ?b) \<and> buffer ?b ! nat j \<noteq> LF \<and> buffer ?b ! nat j \<noteq> CHR '':''"
    using assms by (auto simp: scanned_def lt_size_def nth_append)
  from headers_loop_scan [OF _ this, of r "[]"] assms
  have "headers_loop (?b\<lparr>headCursor := rollbackCursor b\<rparr>) r []
      = headers_loop (?b\<lparr>headCursor := headCursor b\<rparr>) r []"
    by (simp add: scanned_def)
  then have "headers_loop ((rollback b)\<lparr>buffer := buffer b @ z\<rparr>) r [] = headers_loop ?b r []"
    by (simp add: rollback_def)
  then show ?thesis
    using headers_loop_observe [of r r ?b i "[]"] by simp
qed

lemma headers_loop_resume:
  "out_exit (headers_loop b r i) = Some (NeedMore InHeaders) \<Longrightarrow> scanned b \<Longrightarrow>
   observe (headers_loop (b\<lparr>buffer := buffer b @ z\<rparr>) r i)
     = observe (headers_loop ((out_buffer (headers_loop b r i))\<lparr>buffer := buffer b @ z\<rparr>)
         (out_request (headers_loop b r i)) [])"
proof (induction b r i rule: headers_induct)
  case (step b r i)
  let ?c = "buffer b ! nat (headCursor b + 1)"
  let ?c2 = "buffer b ! nat (headCursor b + 2)"
  let ?s = "buffer b @ z"
  let ?b' = "b\<lparr>buffer := ?s\<rparr>"
  note rb = resume_at_rollback [OF step.prems(2), of z r i]
  show ?case
  proof (cases "lt_size (headCursor b + 1) (buffer b)")
    case False
    with rb show ?thesis
      by (simp add: headers_loop_None)
  next
    case True
    note a = agrees_next [OF agrees_append True, of z]
    consider (lf) "?c = LF" | (colon) "?c = CHR '':''" | (other) "?c \<noteq> LF" "?c \<noteq> CHR '':''"
      by blast
    then show ?thesis
    proof cases
      case lf
      with True step.prems(1) show ?thesis
        by (simp add: headers_loop_LF)
    next
      case other
      have u: "headers_loop b r i = headers_loop (b\<lparr>headCursor := headCursor b + 1\<rparr>) r i"
        using True other by (simp add: headers_loop_skip)
      have u': "headers_loop ?b' r i = headers_loop (?b'\<lparr>headCursor := headCursor b + 1\<rparr>) r i"
        using a other by (subst headers_loop_skip) simp_all
      from step.IH(1) [OF True other _ scanned_step [OF step.prems(2) True other]]
        step.prems(1) u u'
      show ?thesis by simp
    next
      case colon
      show ?thesis
      proof (cases "lt_size (headCursor b + 2) (buffer b)")
        case False
        with True colon rb show ?thesis
          by (simp add: headers_loop_colon_None)
      next
        case yes2: True
        let ?b2 = "b\<lparr>headCursor := headCursor b + 2\<rparr>"
        have "agrees (b\<lparr>headCursor := headCursor b + 1\<rparr>) ?s"
          using agrees_append [of "b\<lparr>headCursor := headCursor b + 1\<rparr>" z] by simp
        from agrees_next [OF this] yes2
        have a2: "lt_size (headCursor b + 2) ?s" "?s ! nat (headCursor b + 2) = ?c2"
          by (simp_all add: add.commute)
        show ?thesis
        proof (cases "?c2 = CHR '' ''")
          case False
          with True colon yes2 step.prems(1) show ?thesis
            by (simp add: headers_loop_colon_Some)
        next
          case sp: True
          obtain b3 t where v: "read_until_newline ?b2 [] = (b3, t)"
            by (cases "read_until_newline ?b2 []")
          note res = read_until_newline_result [OF v]
          show ?thesis
          proof (cases t)
            case None
            with True colon yes2 sp v res rb show ?thesis
              by (simp add: headers_loop_colon_Some rollback_def)
          next
            case (Some val)
            have u: "headers_loop b r i = headers_loop b3 (setHeader r i val) [LF]"
              using True colon yes2 sp v Some by (simp add: headers_loop_colon_Some)
            have "read_until_newline (?b2\<lparr>buffer := ?s\<rparr>) [] = (b3\<lparr>buffer := ?s\<rparr>, Some val)"
              using read_until_newline_agrees [of ?b2 ?s "[]"] agrees_append [of ?b2 z] v Some
              by simp
            then have u': "headers_loop ?b' r i
                = headers_loop (b3\<lparr>buffer := ?s\<rparr>) (setHeader r i val) [LF]"
              using a a2 colon sp by (subst headers_loop_colon_Some) simp_all
            have "scanned b3"
              using res Some by (intro scanned_commit) simp
            from step.IH(2) [OF True colon yes2 sp v [unfolded Some] _ this] step.prems(1) u u' res
            show ?thesis by simp
          qed
        qed
      qed
    qed
  qed
qed


subsection \<open>The whole parser\<close>

lemma DeserializeRequest_from_path:
  "DeserializeRequest b r =
     (case parse_type b r of Inl out \<Rightarrow> out | Inr (b1, r1) \<Rightarrow> from_path b1 r1)"
  by (simp add: DeserializeRequest_def from_path_def from_version_def
      split: sum.splits prod.splits)

lemma observe_replace_buffer [simp]: "observe (replace_buffer s out) = observe out"
  by (cases out) (simp_all add: observe_def)

lemma rollback_committed: "headCursor b = rollbackCursor b \<Longrightarrow> rollback b = b"
  by (simp add: rollback_def)

lemma from_version_result:
  "buffer (out_buffer (from_version b r)) = buffer b
   \<and> type (out_request (from_version b r)) = type r
   \<and> path (out_request (from_version b r)) = path r
   \<and> out_exit (from_version b r) \<noteq> Some (NeedMore InType)
   \<and> out_exit (from_version b r) \<noteq> Some (NeedMore InPath)
   \<and> (out_exit (from_version b r) \<noteq> None \<longrightarrow>
        headCursor (out_buffer (from_version b r)) = rollbackCursor (out_buffer (from_version b r)))"
proof (cases "version r = []")
  case False
  with headers_loop_result [of b r "[]"] show ?thesis
    by (auto simp: from_version_def parse_version_def)
next
  case True
  obtain b1 t where v: "read_until_newline b [] = (b1, t)"
    by (cases "read_until_newline b []")
  note res = read_until_newline_result [OF v]
  show ?thesis
  proof (cases t)
    case None
    with True v res show ?thesis
      by (simp add: from_version_def parse_version_def rollback_def)
  next
    case (Some tok)
    with True v res headers_loop_result [of b1 "setVersion r tok" "[]"] show ?thesis
      by (auto simp: from_version_def parse_version_def setVersion_def)
  qed
qed

lemma from_path_result:
  "buffer (out_buffer (from_path b r)) = buffer b
   \<and> type (out_request (from_path b r)) = type r
   \<and> out_exit (from_path b r) \<noteq> Some (NeedMore InType)
   \<and> (out_exit (from_path b r) \<noteq> None \<longrightarrow>
        headCursor (out_buffer (from_path b r)) = rollbackCursor (out_buffer (from_path b r)))"
proof (cases "path r = []")
  case False
  with from_version_result [of b r] show ?thesis
    by (simp add: from_path_def parse_path_def)
next
  case True
  obtain b1 t where v: "read_until_space b [] = (b1, t)"
    by (cases "read_until_space b []")
  note res = read_until_space_result [OF v]
  show ?thesis
  proof (cases t)
    case None
    with True v res show ?thesis
      by (simp add: from_path_def parse_path_def rollback_def)
  next
    case (Some tok)
    with True v res from_version_result [of b1 "setPath r tok"] show ?thesis
      by (simp add: from_path_def parse_path_def setPath_def)
  qed
qed

lemma DeserializeRequest_result:
  "buffer (out_buffer (DeserializeRequest b r)) = buffer b
   \<and> (out_exit (DeserializeRequest b r) \<noteq> None \<longrightarrow>
        headCursor (out_buffer (DeserializeRequest b r))
          = rollbackCursor (out_buffer (DeserializeRequest b r)))"
proof (cases "type r = []")
  case False
  with from_path_result [of b r] show ?thesis
    by (simp add: DeserializeRequest_from_path parse_type_def)
next
  case True
  obtain b1 t where v: "read_until_space b [] = (b1, t)"
    by (cases "read_until_space b []")
  note res = read_until_space_result [OF v]
  show ?thesis
  proof (cases t)
    case None
    with True v res show ?thesis
      by (simp add: DeserializeRequest_from_path parse_type_def rollback_def)
  next
    case (Some tok)
    with True v res from_path_result [of b1 "setType r tok"] show ?thesis
      by (simp add: DeserializeRequest_from_path parse_type_def setType_def)
  qed
qed


lemma needs_more_simps [simp]:
  "needs_more (Returned (NeedMore ph) b r)"
  "\<not> needs_more (Returned Complete b r)"
  "\<not> needs_more (Threw what b r)"
  by (simp_all add: needs_more_def)

lemma from_version_agrees:
  assumes "agrees b s'" "length s' = length (buffer b) \<or> \<not> needs_more (from_version b r)"
  shows "from_version (b\<lparr>buffer := s'\<rparr>) r = replace_buffer s' (from_version b r)"
proof (cases "version r = []")
  case False
  have "out_exit (headers_loop b r []) = Some (NeedMore InHeaders) \<Longrightarrow> needs_more (headers_loop b r [])"
    by (simp add: needs_more_def)
  with False assms headers_loop_agrees [of b s' r "[]"] show ?thesis
    by (auto simp: from_version_def parse_version_def)
next
  case True
  obtain b1 t where v: "read_until_newline b [] = (b1, t)"
    by (cases "read_until_newline b []")
  note res = read_until_newline_result [OF v]
  show ?thesis
  proof (cases t)
    case None
    with True v assms(2) have "length s' = length (buffer b)"
      by (auto simp: from_version_def parse_version_def)
    with read_until_newline_agrees [OF assms(1), of "[]"] v None True show ?thesis
      by (simp add: from_version_def parse_version_def)
  next
    case (Some tok)
    with read_until_newline_agrees [OF assms(1), of "[]"] v
    have v': "read_until_newline (b\<lparr>buffer := s'\<rparr>) [] = (b1\<lparr>buffer := s'\<rparr>, Some tok)"
      by simp
    from res Some assms(1) have ag: "agrees b1 s'"
      by (auto intro: agrees_forward)
    have "out_exit (headers_loop b1 (setVersion r tok) []) = Some (NeedMore InHeaders)
        \<Longrightarrow> needs_more (headers_loop b1 (setVersion r tok) [])"
      by (simp add: needs_more_def)
    with True v v' Some res assms(2) headers_loop_agrees [OF ag, of "setVersion r tok" "[]"]
    show ?thesis
      by (auto simp: from_version_def parse_version_def)
  qed
qed

lemma from_path_agrees:
  assumes "agrees b s'" "length s' = length (buffer b) \<or> \<not> needs_more (from_path b r)"
  shows "from_path (b\<lparr>buffer := s'\<rparr>) r = replace_buffer s' (from_path b r)"
proof (cases "path r = []")
  case False
  with assms from_version_agrees [of b s' r] show ?thesis
    by (simp add: from_path_def parse_path_def)
next
  case True
  obtain b1 t where v: "read_until_space b [] = (b1, t)"
    by (cases "read_until_space b []")
  note res = read_until_space_result [OF v]
  show ?thesis
  proof (cases t)
    case None
    with True v assms(2) have "length s' = length (buffer b)"
      by (auto simp: from_path_def parse_path_def)
    with read_until_space_agrees [OF assms(1), of "[]"] v None True show ?thesis
      by (simp add: from_path_def parse_path_def)
  next
    case (Some tok)
    with read_until_space_agrees [OF assms(1), of "[]"] v
    have v': "read_until_space (b\<lparr>buffer := s'\<rparr>) [] = (b1\<lparr>buffer := s'\<rparr>, Some tok)"
      by simp
    from res Some assms(1) have ag: "agrees b1 s'"
      by (auto intro: agrees_forward)
    with True v v' Some res assms(2) from_version_agrees [OF ag, of "setPath r tok"]
    show ?thesis
      by (auto simp: from_path_def parse_path_def)
  qed
qed

lemma DeserializeRequest_agrees:
  assumes "agrees b s'" "length s' = length (buffer b) \<or> \<not> needs_more (DeserializeRequest b r)"
  shows "DeserializeRequest (b\<lparr>buffer := s'\<rparr>) r = replace_buffer s' (DeserializeRequest b r)"
proof (cases "type r = []")
  case False
  with assms from_path_agrees [of b s' r] show ?thesis
    by (simp add: DeserializeRequest_from_path parse_type_def)
next
  case True
  obtain b1 t where v: "read_until_space b [] = (b1, t)"
    by (cases "read_until_space b []")
  note res = read_until_space_result [OF v]
  show ?thesis
  proof (cases t)
    case None
    with True v assms(2) have "length s' = length (buffer b)"
      by (auto simp: DeserializeRequest_from_path parse_type_def)
    with read_until_space_agrees [OF assms(1), of "[]"] v None True show ?thesis
      by (simp add: DeserializeRequest_from_path parse_type_def)
  next
    case (Some tok)
    with read_until_space_agrees [OF assms(1), of "[]"] v
    have v': "read_until_space (b\<lparr>buffer := s'\<rparr>) [] = (b1\<lparr>buffer := s'\<rparr>, Some tok)"
      by simp
    from res Some assms(1) have ag: "agrees b1 s'"
      by (auto intro: agrees_forward)
    with True v v' Some res assms(2) from_path_agrees [OF ag, of "setType r tok"]
    show ?thesis
      by (auto simp: DeserializeRequest_from_path parse_type_def)
  qed
qed


subsection \<open>Calling the parser again with more bytes\<close>

lemma read_until_space_append:
  "read_until_space b acc = (b', Some tok) \<Longrightarrow>
   read_until_space (b\<lparr>buffer := buffer b @ z\<rparr>) acc = (b'\<lparr>buffer := buffer b @ z\<rparr>, Some tok)"
  using read_until_space_agrees [of b "buffer b @ z" acc] agrees_append [of b z] by simp

lemma read_until_newline_append:
  "read_until_newline b acc = (b', Some tok) \<Longrightarrow>
   read_until_newline (b\<lparr>buffer := buffer b @ z\<rparr>) acc = (b'\<lparr>buffer := buffer b @ z\<rparr>, Some tok)"
  using read_until_newline_agrees [of b "buffer b @ z" acc] agrees_append [of b z] by simp

lemma DeserializeRequest_append:
  "\<not> needs_more (DeserializeRequest b r) \<Longrightarrow>
   DeserializeRequest (b\<lparr>buffer := buffer b @ z\<rparr>) r
     = replace_buffer (buffer b @ z) (DeserializeRequest b r)"
  using DeserializeRequest_agrees [of b "buffer b @ z" r] agrees_append [of b z] by simp

lemma from_version_resume:
  assumes ex: "out_exit (from_version b r) = Some (NeedMore ph)"
    and ok: "tokens_ok ph (out_request (from_version b r))"
    and c: "headCursor b = rollbackCursor b"
  shows "observe (from_version (b\<lparr>buffer := buffer b @ z\<rparr>) r)
       = observe (from_version ((out_buffer (from_version b r))\<lparr>buffer := buffer b @ z\<rparr>)
           (out_request (from_version b r)))"
proof (cases "version r = []")
  case False
  then have f: "from_version b r = headers_loop b r []"
    by (simp add: from_version_def parse_version_def)
  note res = headers_loop_result [of b r "[]"]
  from ex f res have h: "out_exit (headers_loop b r []) = Some (NeedMore InHeaders)"
    by auto
  from False res have "version (out_request (headers_loop b r [])) \<noteq> []"
    by simp
  with False f headers_loop_resume [OF h scanned_commit [OF c], of z] show ?thesis
    by (simp add: from_version_def parse_version_def)
next
  case True
  obtain b1 t where v: "read_until_newline b [] = (b1, t)"
    by (cases "read_until_newline b []")
  note res = read_until_newline_result [OF v]
  show ?thesis
  proof (cases t)
    case None
    with True v res c show ?thesis
      by (simp add: from_version_def parse_version_def rollback_committed)
  next
    case (Some tok)
    let ?r1 = "setVersion r tok"
    from True v Some have f: "from_version b r = headers_loop b1 ?r1 []"
      by (simp add: from_version_def parse_version_def)
    note hres = headers_loop_result [of b1 ?r1 "[]"]
    from ex f hres have h: "out_exit (headers_loop b1 ?r1 []) = Some (NeedMore InHeaders)"
      and ph: "ph = InHeaders"
      by auto
    from ok ph f hres have ne: "version (out_request (headers_loop b1 ?r1 [])) \<noteq> []"
      by simp
    have "read_until_newline (b\<lparr>buffer := buffer b @ z\<rparr>) []
        = (b1\<lparr>buffer := buffer b @ z\<rparr>, Some tok)"
      using read_until_newline_append [of b "[]" b1 tok z] v Some by simp
    with True have l: "from_version (b\<lparr>buffer := buffer b @ z\<rparr>) r
        = headers_loop (b1\<lparr>buffer := buffer b @ z\<rparr>) ?r1 []"
      by (simp add: from_version_def parse_version_def)
    from res Some have "scanned b1"
      by (intro scanned_commit) simp
    from headers_loop_resume [OF h this, of z] res ne f l show ?thesis
      by (simp add: from_version_def parse_version_def)
  qed
qed

lemma from_path_resume:
  assumes ex: "out_exit (from_path b r) = Some (NeedMore ph)"
    and ok: "tokens_ok ph (out_request (from_path b r))"
    and c: "headCursor b = rollbackCursor b"
  shows "observe (from_path (b\<lparr>buffer := buffer b @ z\<rparr>) r)
       = observe (from_path ((out_buffer (from_path b r))\<lparr>buffer := buffer b @ z\<rparr>)
           (out_request (from_path b r)))"
proof (cases "path r = []")
  case False
  then have f: "from_path b r = from_version b r"
    by (simp add: from_path_def parse_path_def)
  from False from_version_result [of b r]
  have "path (out_request (from_version b r)) \<noteq> []"
    by simp
  with False f from_version_resume [of b r ph z] ex ok c show ?thesis
    by (simp add: from_path_def parse_path_def)
next
  case True
  obtain b1 t where v: "read_until_space b [] = (b1, t)"
    by (cases "read_until_space b []")
  note res = read_until_space_result [OF v]
  show ?thesis
  proof (cases t)
    case None
    with True v res c show ?thesis
      by (simp add: from_path_def parse_path_def rollback_committed)
  next
    case (Some tok)
    let ?r1 = "setPath r tok"
    from True v Some have f: "from_path b r = from_version b1 ?r1"
      by (simp add: from_path_def parse_path_def)
    note vres = from_version_result [of b1 ?r1]
    from ex f vres have "ph = InVersion \<or> ph = InHeaders"
      by (cases ph) auto
    with ok f vres have ne: "path (out_request (from_version b1 ?r1)) \<noteq> []"
      by auto
    have "read_until_space (b\<lparr>buffer := buffer b @ z\<rparr>) []
        = (b1\<lparr>buffer := buffer b @ z\<rparr>, Some tok)"
      using read_until_space_append [of b "[]" b1 tok z] v Some by simp
    with True have l: "from_path (b\<lparr>buffer := buffer b @ z\<rparr>) r
        = from_version (b1\<lparr>buffer := buffer b @ z\<rparr>) ?r1"
      by (simp add: from_path_def parse_path_def)
    from res Some have c1: "headCursor b1 = rollbackCursor b1"
      by simp
    from from_version_resume [of b1 ?r1 ph z] ex ok c1 res ne f l show ?thesis
      by (simp add: from_path_def parse_path_def)
  qed
qed

lemma DeserializeRequest_resume:
  assumes ex: "out_exit (DeserializeRequest b r) = Some (NeedMore ph)"
    and ok: "tokens_ok ph (out_request (DeserializeRequest b r))"
    and c: "headCursor b = rollbackCursor b"
  shows "observe (DeserializeRequest (b\<lparr>buffer := buffer b @ z\<rparr>) r)
       = observe (DeserializeRequest
           ((out_buffer (DeserializeRequest b r))\<lparr>buffer := buffer b @ z\<rparr>)
           (out_request (DeserializeRequest b r)))"
proof (cases "type r = []")
  case False
  then have f: "DeserializeRequest b r = from_path b r"
    by (simp add: DeserializeRequest_from_path parse_type_def)
  from False from_path_result [of b r]
  have "type (out_request (from_path b r)) \<noteq> []"
    by simp
  with False f from_path_resume [of b r ph z] ex ok c show ?thesis
    by (simp add: DeserializeRequest_from_path parse_type_def)
next
  case True
  obtain b1 t where v: "read_until_space b [] = (b1, t)"
    by (cases "read_until_space b []")
  note res = read_until_space_result [OF v]
  show ?thesis
  proof (cases t)
    case None
    with True v res c show ?thesis
      by (simp add: DeserializeRequest_from_path parse_type_def rollback_committed)
  next
    case (Some tok)
    let ?r1 = "setType r tok"
    from True v Some have f: "DeserializeRequest b r = from_path b1 ?r1"
      by (simp add: DeserializeRequest_from_path parse_type_def)
    note pres = from_path_result [of b1 ?r1]
    from ex f pres have "ph \<noteq> InType"
      by auto
    with ok f pres have ne: "type (out_request (from_path b1 ?r1)) \<noteq> []"
      by (cases ph) auto
    have "read_until_space (b\<lparr>buffer := buffer b @ z\<rparr>) []
        = (b1\<lparr>buffer := buffer b @ z\<rparr>, Some tok)"
      using read_until_space_append [of b "[]" b1 tok z] v Some by simp
    with True have l: "DeserializeRequest (b\<lparr>buffer := buffer b @ z\<rparr>) r
        = from_path (b1\<lparr>buffer := buffer b @ z\<rparr>) ?r1"
      by (simp add: DeserializeRequest_from_path parse_type_def)
    from res Some have c1: "headCursor b1 = rollbackCursor b1"
      by simp
    from from_path_resume [of b1 ?r1 ph z] ex ok c1 res ne f l show ?thesis
      by (simp add: DeserializeRequest_from_path parse_type_def)
  qed
qed

lemma feed_observe:
  "headCursor b = rollbackCursor b \<Longrightarrow> resumable b r x xs \<Longrightarrow>
   observe (feed b r x xs) = observe (DeserializeRequest (plus_assign b (x @ concat xs)) r)"
proof (induction xs arbitrary: b r x)
  case Nil
  then show ?case by simp
next
  case (Cons y ys)
  let ?b = "plus_assign b x"
  let ?z = "concat (y # ys)"
  have whole: "plus_assign b (x @ ?z) = ?b\<lparr>buffer := buffer ?b @ ?z\<rparr>"
    by (simp add: plus_assign_def)
  have c: "headCursor ?b = rollbackCursor ?b"
    using Cons.prems(1) by (simp add: plus_assign_def)
  note res = DeserializeRequest_result [of ?b r]
  show ?case
  proof (cases "DeserializeRequest ?b r")
    case (Threw what b' r')
    then have "DeserializeRequest (?b\<lparr>buffer := buffer ?b @ ?z\<rparr>) r
        = replace_buffer (buffer ?b @ ?z) (Threw what b' r')"
      using DeserializeRequest_append [of ?b r ?z] by simp
    with Threw whole show ?thesis
      by (simp add: observe_def)
  next
    case (Returned ex b' r')
    with Cons.prems(2) obtain ph where ex: "ex = NeedMore ph"
      and ok: "tokens_ok ph r'" and rest: "resumable b' r' y ys"
      by (cases ex) auto
    from res Returned have b': "buffer b' = buffer ?b" "headCursor b' = rollbackCursor b'"
      by auto
    have "observe (feed b r x (y # ys)) = observe (feed b' r' y ys)"
      using Returned by simp
    also have "\<dots> = observe (DeserializeRequest (plus_assign b' ?z) r')"
      using Cons.IH [OF b'(2) rest] by simp
    also have "plus_assign b' ?z = b'\<lparr>buffer := buffer ?b @ ?z\<rparr>"
      using b'(1) by (simp add: plus_assign_def)
    also have "observe (DeserializeRequest (b'\<lparr>buffer := buffer ?b @ ?z\<rparr>) r')
        = observe (DeserializeRequest (?b\<lparr>buffer := buffer ?b @ ?z\<rparr>) r)"
      using DeserializeRequest_resume [of ?b r ph ?z] Returned ex ok c by simp
    finally show ?thesis
      using whole by simp
  qed
qed

subsection \<open>A token that is there\<close>

lemma drop_next:
  assumes "0 \<le> h" "drop (nat (h + 1)) s = c # rest"
  shows "lt_size (h + 1) s" "s ! nat (h + 1) = c" "drop (nat (h + 1 + 1)) s = rest"
proof -
  from assms(2) have "nat (h + 1) < length s"
    by (metis drop_eq_Nil2 list.distinct(1) not_le)
  with assms(1) show "lt_size (h + 1) s"
    by (simp add: lt_size_def)
  from assms(2) show "s ! nat (h + 1) = c"
    by (rule nth_via_drop)
  have "nat (h + 1 + 1) = Suc (nat (h + 1))"
    using assms(1) by simp
  then show "drop (nat (h + 1 + 1)) s = rest"
    using assms(2) by (metis drop_Suc tl_drop list.sel(3))
qed

lemma read_until_space_found:
  "0 \<le> headCursor b \<Longrightarrow> drop (nat (headCursor b + 1)) (buffer b) = tok @ CHR '' '' # rest \<Longrightarrow>
   CHR '' '' \<notin> set tok \<Longrightarrow>
   read_until_space b acc
     = (commit (b\<lparr>headCursor := headCursor b + 1 + int (length tok)\<rparr>), Some (acc @ tok))"
proof (induction tok arbitrary: b acc)
  case Nil
  from drop_next [OF Nil(1), of "buffer b" "CHR '' ''" rest] Nil show ?case
    by (simp add: read_until_space_Some)
next
  case (Cons c tok)
  from drop_next [OF Cons.prems(1), of "buffer b" c "tok @ CHR '' '' # rest"] Cons.prems
  have n: "lt_size (headCursor b + 1) (buffer b)" "buffer b ! nat (headCursor b + 1) = c"
    "drop (nat (headCursor b + 1 + 1)) (buffer b) = tok @ CHR '' '' # rest"
    by simp_all
  from Cons.IH [of "b\<lparr>headCursor := headCursor b + 1\<rparr>" "acc @ [c]"] n Cons.prems
  show ?case
    by (auto simp: read_until_space_Some add.assoc)
qed

lemma read_until_newline_found:
  "0 \<le> headCursor b \<Longrightarrow> drop (nat (headCursor b + 1)) (buffer b) = tok @ LF # rest \<Longrightarrow>
   LF \<notin> set tok \<Longrightarrow>
   read_until_newline b acc
     = (commit (b\<lparr>headCursor := headCursor b + 1 + int (length tok)\<rparr>),
        Some (acc @ filter (\<lambda>c. c \<noteq> CR) tok))"
proof (induction tok arbitrary: b acc)
  case Nil
  from drop_next [OF Nil(1), of "buffer b" LF rest] Nil show ?case
    by (simp add: read_until_newline_Some CR_def LF_def)
next
  case (Cons c tok)
  from drop_next [OF Cons.prems(1), of "buffer b" c "tok @ LF # rest"] Cons.prems
  have n: "lt_size (headCursor b + 1) (buffer b)" "buffer b ! nat (headCursor b + 1) = c"
    "drop (nat (headCursor b + 1 + 1)) (buffer b) = tok @ LF # rest"
    by simp_all
  from Cons.IH [of "b\<lparr>headCursor := headCursor b + 1\<rparr>" acc]
    Cons.IH [of "b\<lparr>headCursor := headCursor b + 1\<rparr>" "acc @ [c]"] n Cons.prems
  show ?case
    by (auto simp: read_until_newline_Some add.assoc)
qed

lemma read_until_newline_missing:
  "0 \<le> headCursor b \<Longrightarrow> LF \<notin> set (drop (nat (headCursor b + 1)) (buffer b)) \<Longrightarrow>
   read_until_newline b acc = (rollback b, None)"
proof (induction b acc rule: newline_induct)
  case (step b acc)
  show ?case
  proof (cases "lt_size (headCursor b + 1) (buffer b)")
    case False
    then show ?thesis
      by (simp add: read_until_newline_None)
  next
    case True
    then have i: "nat (headCursor b + 1) < length (buffer b)"
      by (auto simp: lt_size_def)
    from Cons_nth_drop_Suc [OF i] step.prems
    have d: "drop (nat (headCursor b + 1)) (buffer b)
        = buffer b ! nat (headCursor b + 1) # drop (nat (headCursor b + 1 + 1)) (buffer b)"
      by (simp add: nat_add_distrib)
    with step.prems(2) have ne: "buffer b ! nat (headCursor b + 1) \<noteq> LF"
      and rest: "LF \<notin> set (drop (nat (headCursor b + 1 + 1)) (buffer b))"
      by auto
    show ?thesis
    proof (cases "buffer b ! nat (headCursor b + 1) = CR")
      case cr: True
      from step.IH(1) [OF True cr] step.prems(1) rest True cr show ?thesis
        by (simp add: read_until_newline_Some rollback_def)
    next
      case ncr: False
      from step.IH(2) [OF True ncr ne] step.prems(1) rest True ncr ne show ?thesis
        by (simp add: read_until_newline_Some rollback_def)
    qed
  qed
qed

section \<open>Properties of requests\<close>

text \<open>
  C10: for a key \<open>k\<close> that is not among the headers of a request, \<^verbatim>\<open>getHeader(k)\<close>
  returns the empty string and leaves a request that differs from the one before: it maps
  \<open>k\<close> to the empty string; method, path, version and every other header are unchanged.
\<close>

theorem C10_getHeader_missing_key:
  assumes "headers r k = None"
  shows "fst (getHeader r k) = []
    \<and> headers (snd (getHeader r k)) k = Some []
    \<and> snd (getHeader r k) \<noteq> r
    \<and> type (snd (getHeader r k)) = type r
    \<and> path (snd (getHeader r k)) = path r
    \<and> version (snd (getHeader r k)) = version r
    \<and> (\<forall>k'. k' \<noteq> k \<longrightarrow> headers (snd (getHeader r k)) k' = headers r k')"
proof -
  have "headers (r\<lparr>headers := (headers r)(k \<mapsto> [])\<rparr>) k \<noteq> headers r k"
    using assms by simp
  then have "r\<lparr>headers := (headers r)(k \<mapsto> [])\<rparr> \<noteq> r"
    by metis
  then show ?thesis
    using assms by (simp add: getHeader_def)
qed

theorem C10_getHeader_missing_key_witness:
  "headers empty_Request ''Connection'' = None
   \<and> fst (getHeader empty_Request ''Connection'') = []
   \<and> headers (snd (getHeader empty_Request ''Connection'')) ''Connection'' = Some []
   \<and> snd (getHeader empty_Request ''Connection'') \<noteq> empty_Request"
proof -
  have h: "headers empty_Request ''Connection'' = None"
    by (simp add: empty_Request_def)
  show ?thesis
    using h C10_getHeader_missing_key [OF h] by simp
qed

section \<open>Properties of the parser\<close>

text \<open>
  C1 does not hold of the code. On \<^verbatim>\<open>GET /ping HTTP/1.1\r\nHost: x\r\n\r\n\<close> the
  parser reaches the end of the header block, and the request then has no header
  \<^verbatim>\<open>Host\<close>: the value \<^verbatim>\<open>x\<close> is stored under the empty key, because the bytes of
  the key are never appended to the key accumulator.
\<close>

theorem C1_header_key_is_lost:
  "out_exit (DeserializeRequest (plus_assign fresh host_request) empty_Request) = Some Complete
   \<and> headers (out_request (DeserializeRequest (plus_assign fresh host_request) empty_Request))
        ''Host'' = None
   \<and> headers (out_request (DeserializeRequest (plus_assign fresh host_request) empty_Request))
        [] = Some ''x''"
  by code_simp

lemma next_n_cursor:
  "buffer b = c # s \<Longrightarrow> 0 \<le> headCursor b \<Longrightarrow> headCursor b \<le> int (length s) \<Longrightarrow>
   buffer (next_n k b) = c # s \<and> headCursor (next_n k b) = min (headCursor b + int k) (int (length s))"
proof (induction k arbitrary: b)
  case 0
  then show ?case by simp
next
  case (Suc k)
  show ?case
  proof (cases "headCursor b < int (length s)")
    case True
    with Suc.prems have n: "snd (next_char b) = b\<lparr>headCursor := headCursor b + 1\<rparr>"
      by (simp add: next_char_def Let_def lt_size_def)
    from Suc.IH [of "b\<lparr>headCursor := headCursor b + 1\<rparr>"] Suc.prems True n show ?thesis
      by (simp add: min_def)
  next
    case False
    with Suc.prems have n: "snd (next_char b) = b"
      by (simp add: next_char_def Let_def lt_size_def)
    from Suc.IH [of b] Suc.prems False n show ?thesis
      by (simp add: min_def)
  qed
qed

text \<open>
  C9: after a non-empty string has been assigned, \<^verbatim>\<open>current()\<close> is its first byte, and
  the call number \<open>k + 1\<close> of \<^verbatim>\<open>next()\<close> returns the byte at index \<open>k + 1\<close> when there
  is one and nothing otherwise, so no call returns the byte at index 0. The request parser
  reads through \<^verbatim>\<open>next()\<close> only: what it does with the assigned string does not depend on
  the first byte.
\<close>

theorem C9_first_byte_is_skipped:
  "current (assign b (c # s)) = Some c
   \<and> fst (next_char (next_n k (assign b (c # s)))) = (if k < length s then Some (s ! k) else None)
   \<and> DeserializeRequest (assign b (c' # s)) r
       = replace_buffer (c' # s) (DeserializeRequest (assign b (c # s)) r)"
proof -
  let ?b = "assign b (c # s)"
  have cur: "current ?b = Some c"
    by (simp add: current_def assign_def lt_size_def)
  from next_n_cursor [of ?b c s k]
  have "buffer (next_n k ?b) = c # s" "headCursor (next_n k ?b) = min (int k) (int (length s))"
    by (simp_all add: assign_def)
  then have nxt: "fst (next_char (next_n k ?b)) = (if k < length s then Some (s ! k) else None)"
    by (auto simp: next_char_def Let_def lt_size_def min_def nat_add_distrib)
  have "agrees ?b (c' # s)"
    by (rule agrees_first [of _ c]) (simp_all add: assign_def)
  from DeserializeRequest_agrees [OF this, of r]
  have "DeserializeRequest (?b\<lparr>buffer := c' # s\<rparr>) r = replace_buffer (c' # s) (DeserializeRequest ?b r)"
    by (simp add: assign_def)
  moreover have "?b\<lparr>buffer := c' # s\<rparr> = assign b (c' # s)"
    by (simp add: assign_def)
  ultimately show ?thesis
    using cur nxt by simp
qed

theorem C9_first_byte_is_skipped_witness:
  "fst (next_char (next_n 0 (assign fresh ''GET / ''))) = Some (CHR ''E'')
   \<and> type (out_request (DeserializeRequest (assign fresh ''GET / '') empty_Request)) = ''ET''
   \<and> DeserializeRequest (assign fresh ''XET / '') empty_Request
       = replace_buffer ''XET / '' (DeserializeRequest (assign fresh ''GET / '') empty_Request)"
proof -
  have "type (out_request (DeserializeRequest (assign fresh ''GET / '') empty_Request)) = ''ET''"
    by code_simp
  then show ?thesis
    using C9_first_byte_is_skipped [of fresh "CHR ''G''" "''ET / ''" 0 "CHR ''X''" empty_Request]
    by simp
qed

text \<open>
  C4, as stated, fails, in three ways. A call made after the end of the header block goes
  on reading headers, so bytes that one call leaves alone as the body make a later call
  throw. A method that is the empty string is read a second time by the next call. And the
  key under which a header value is stored depends on where the pieces end (the key
  accumulator of C1 starts empty in every call).
\<close>

theorem C4_pieces_change_the_result:
  "out_what (feed fresh empty_Request plain_request [''a:b''])
     = Some ''Expected space (' ') character after colon (':'). Got 98''
   \<and> out_what (DeserializeRequest (plus_assign fresh (plain_request @ concat [''a:b'']))
        empty_Request) = None
   \<and> type (out_request (feed fresh empty_Request ''X /'' ['' V'' @ [LF, LF]])) = ''/''
   \<and> type (out_request (DeserializeRequest (plus_assign fresh (''X /'' @ concat ['' V'' @ [LF, LF]]))
        empty_Request)) = []
   \<and> headers (out_request (feed fresh empty_Request (''GET / HTTP/1.1'' @ [LF] @ ''A: 1'' @ [LF])
        [''B: 2'' @ [LF, LF]])) [] = Some ''2''
   \<and> headers (out_request (DeserializeRequest (plus_assign fresh
        ((''GET / HTTP/1.1'' @ [LF] @ ''A: 1'' @ [LF]) @ concat [''B: 2'' @ [LF, LF]]))
        empty_Request)) [] = Some ''1''"
  by code_simp

text \<open>
  C4, amended: take a buffer whose cursors stand at a commit, and pieces such that every
  call before the last either throws or runs out of bytes with no empty method, path or
  version before the part it was reading. Then feeding the pieces one at a time and feeding
  their concatenation at once end with the same method, path and version, the same cursors,
  through the same exit, and throw the same exception. (The header map is left out.)
\<close>

theorem C4_pieces_same_request_line:
  assumes "headCursor b = rollbackCursor b" and "resumable b r x xs"
  shows "observe (feed b r x xs) = observe (DeserializeRequest (plus_assign b (x @ concat xs)) r)"
  using assms by (rule feed_observe)

theorem C4_pieces_same_request_line_witness:
  "headCursor fresh = rollbackCursor fresh
   \<and> resumable fresh empty_Request ''GET / HT''
        [''TP/1.1'' @ [CR, LF] @ ''Host'', '': x'' @ [CR, LF, CR, LF]]
   \<and> observe (feed fresh empty_Request ''GET / HT''
        [''TP/1.1'' @ [CR, LF] @ ''Host'', '': x'' @ [CR, LF, CR, LF]])
     = observe (DeserializeRequest (plus_assign fresh (''GET / HT'' @
        concat [''TP/1.1'' @ [CR, LF] @ ''Host'', '': x'' @ [CR, LF, CR, LF]])) empty_Request)"
proof -
  have h1: "headCursor fresh = rollbackCursor fresh"
    by (simp add: fresh_def)
  have h2: "resumable fresh empty_Request ''GET / HT''
        [''TP/1.1'' @ [CR, LF] @ ''Host'', '': x'' @ [CR, LF, CR, LF]]"
    by code_simp
  show ?thesis
    using h1 h2 C4_pieces_same_request_line [OF h1 h2] by blast
qed

section \<open>Properties of the connection state machine\<close>

lemma bad_request_stage:
  "stage (bad_request st what) = RES \<and> statusCode (response (bad_request st what)) = 400"
  by (simp add: bad_request_def setBody_def setContentType_def setStatusReason_def
      setStatusCode_def)

lemma ProcessRequest_stage:
  "ProcessRequest rs st = Some (ok, st') \<Longrightarrow>
     stage st' = stage st \<or> (stage st' = RES \<and> statusCode (response st') = 400)"
proof (induction rs st rule: ProcessRequest.induct)
  case (4 bytes rest state)
  then show ?case
    by (auto simp: bad_request_stage split: outcome.splits if_splits)
qed simp_all

lemma ProcessRequest_returns:
  "WouldBlock \<in> set rs \<or> RecvError \<in> set rs \<Longrightarrow> ProcessRequest rs st \<noteq> None"
proof (induction rs st rule: ProcessRequest.induct)
  case (4 bytes rest state)
  then show ?case
    by (auto split: outcome.splits)
qed simp_all

text \<open>
  C2 does not hold of the code. A whole request arrives and the parser leaves through the
  exit at the end of the header block; the loop of \<^verbatim>\<open>ProcessRequest\<close> goes on to the
  next \<^verbatim>\<open>recv\<close>, and when that fails (or would block) the step returns with the
  connection still in stage \<^verbatim>\<open>REQ\<close>. No statement of the step assigns
  \<^verbatim>\<open>Stage::FUNC\<close>, although the stage, its case in \<^verbatim>\<open>Serve\<close> and its step
  \<^verbatim>\<open>ProcessFunction\<close> are there.
\<close>

theorem C2_complete_request_stays_in_REQ:
  "out_exit (DeserializeRequest (plus_assign (reqBuffer (new_connection 5)) (c_str plain_request))
       (request (new_connection 5))) = Some Complete
   \<and> stage_after (ProcessRequest [Received plain_request, RecvError] (new_connection 5))
       = Some REQ
   \<and> stage_after (ProcessRequest [Received plain_request, WouldBlock] (new_connection 5))
       = Some REQ"
  by code_simp

text \<open>
  C3 does not hold of the code: the two tests are inverted. For a path that is in the route
  table, with the method registered or not, the step answers 404 and runs no handler; for a
  path that is not in the table, it reads through the end iterator.
\<close>

theorem C3_registered_route_gets_404:
  "ProcessFunction ping_routes (func_state ''GET'' ''/ping'')
     = Finished True (not_found (func_state ''GET'' ''/ping'')) None
   \<and> statusCode (response (not_found (func_state ''GET'' ''/ping''))) = 404
   \<and> stage (not_found (func_state ''GET'' ''/ping'')) = RES
   \<and> ProcessFunction ping_routes (func_state ''POST'' ''/ping'')
     = Finished True (not_found (func_state ''POST'' ''/ping'')) None
   \<and> ProcessFunction ping_routes (func_state ''GET'' ''/nope'') = UndefinedBehaviour"
  by (simp add: ProcessFunction_def ping_routes_def func_state_def not_found_def
      setBody_def setContentType_def setStatusReason_def setStatusCode_def)

text \<open>
  C6 does not hold of the code: for a connection in stage \<^verbatim>\<open>RES\<close> the loop tests
  \<^verbatim>\<open>EPOLLIN\<close>. An event with readable readiness only runs \<^verbatim>\<open>ProcessResponse\<close>, and an
  event with writable readiness only does not.
\<close>

theorem C6_response_step_on_readable_event:
  "connection_event [5 \<mapsto> (new_connection 5)\<lparr>stage := RES\<rparr>] \<lparr>events = EPOLLIN, data_fd = 5\<rparr>
     = CallProcessResponse
   \<and> EPOLLIN AND EPOLLOUT = 0
   \<and> connection_event [5 \<mapsto> (new_connection 5)\<lparr>stage := RES\<rparr>] \<lparr>events = EPOLLOUT, data_fd = 5\<rparr>
     = Nothing"
  by (simp add: connection_event_def EPOLLIN_def EPOLLOUT_def EPOLLERR_def EPOLLHUP_def)

theorem C6_response_step_on_readable_event_witness:
  "connection_event [5 \<mapsto> (new_connection 5)\<lparr>stage := RES\<rparr>] \<lparr>events = EPOLLIN, data_fd = 5\<rparr>
     = CallProcessResponse"
  using C6_response_step_on_readable_event by (rule conjunct1)

subsection \<open>The size of the header block\<close>

lemma length_long_request_line: "length (long_request_line n) = n + 14"
  by (simp add: long_request_line_def)

lemma c_str_long_request_line: "c_str (long_request_line n) = long_request_line n"
  by (simp add: c_str_def long_request_line_def)

lemma drop_long_request_line:
  "drop (nat (int n + 5 + 1)) (long_request_line n @ z) = ''HTTP/1.1'' @ z"
proof -
  define pre where "pre = ''GET /'' @ replicate n (CHR ''a'') @ '' ''"
  have l: "length pre = nat (int n + 5 + 1)"
    by (simp add: pre_def)
  have e: "pre @ ''HTTP/1.1'' @ z = long_request_line n @ z"
    by (simp add: pre_def long_request_line_def)
  have "drop (length pre) (pre @ ''HTTP/1.1'' @ z) = ''HTTP/1.1'' @ z"
    by simp
  then show ?thesis
    unfolding l e .
qed

lemma parse_long_request_line:
  "DeserializeRequest (plus_assign fresh (long_request_line n)) empty_Request
     = Returned (NeedMore InVersion)
         \<lparr>buffer = long_request_line n, headCursor = int n + 5, rollbackCursor = int n + 5\<rparr>
         (long_path_request n [])"
proof -
  let ?s = "long_request_line n"
  let ?b0 = "\<lparr>buffer = ?s, headCursor = 0, rollbackCursor = 0\<rparr>"
  let ?b1 = "\<lparr>buffer = ?s, headCursor = 3, rollbackCursor = 3\<rparr>"
  let ?b2 = "\<lparr>buffer = ?s, headCursor = int n + 5, rollbackCursor = int n + 5\<rparr>"
  have d1: "drop (nat (headCursor ?b0 + 1)) (buffer ?b0)
      = ''ET'' @ CHR '' '' # (CHR ''/'' # replicate n (CHR ''a'') @ '' HTTP/1.1'')"
    by (simp add: long_request_line_def)
  have t: "read_until_space ?b0 [] = (?b1, Some ''ET'')"
    using read_until_space_found [OF _ d1, of "[]"] by (simp add: commit_def)
  have d2: "drop (nat (headCursor ?b1 + 1)) (buffer ?b1)
      = (CHR ''/'' # replicate n (CHR ''a'')) @ CHR '' '' # ''HTTP/1.1''"
    by (simp add: long_request_line_def)
  have p: "read_until_space ?b1 [] = (?b2, Some (CHR ''/'' # replicate n (CHR ''a'')))"
    using read_until_space_found [OF _ d2, of "[]"] by (simp add: commit_def add.commute)
  have "LF \<notin> set (drop (nat (headCursor ?b2 + 1)) (buffer ?b2))"
    using drop_long_request_line [of n "[]"] by (simp add: LF_def)
  then have v: "read_until_newline ?b2 [] = (?b2, None)"
    by (subst read_until_newline_missing) (simp_all add: rollback_def)
  show ?thesis
    using t p v
    by (simp add: DeserializeRequest_def parse_type_def parse_path_def parse_version_def
        plus_assign_def fresh_def empty_Request_def setType_def setPath_def
        long_path_request_def)
qed

lemma parse_long_request_end:
  "DeserializeRequest
     (plus_assign \<lparr>buffer = long_request_line n, headCursor = int n + 5, rollbackCursor = int n + 5\<rparr>
        [LF, LF])
     (long_path_request n [])
   = Returned Complete
       \<lparr>buffer = long_request_line n @ [LF, LF], headCursor = int n + 15,
          rollbackCursor = int n + 15\<rparr>
       (long_path_request n ''HTTP/1.1'')"
proof -
  let ?s = "long_request_line n @ [LF, LF]"
  let ?b2 = "\<lparr>buffer = ?s, headCursor = int n + 5, rollbackCursor = int n + 5\<rparr>"
  let ?b3 = "\<lparr>buffer = ?s, headCursor = int n + 14, rollbackCursor = int n + 14\<rparr>"
  have d3: "drop (nat (headCursor ?b2 + 1)) (buffer ?b2) = ''HTTP/1.1'' @ LF # [LF]"
    using drop_long_request_line [of n "[LF, LF]"] by simp
  have v: "read_until_newline ?b2 [] = (?b3, Some ''HTTP/1.1'')"
    using read_until_newline_found [OF _ d3, of "[]"]
    by (simp add: commit_def add.commute CR_def LF_def)
  have "nat (int n + 14 + 1) = Suc (length (long_request_line n))"
    by (simp add: length_long_request_line)
  then have "buffer ?b3 ! nat (headCursor ?b3 + 1) = LF"
    by (simp add: nth_append)
  moreover have "lt_size (headCursor ?b3 + 1) (buffer ?b3)"
    by (simp add: lt_size_def length_long_request_line)
  ultimately have "headers_loop ?b3 (long_path_request n ''HTTP/1.1'') []
      = Returned Complete (commit (?b3\<lparr>headCursor := headCursor ?b3 + 1\<rparr>))
          (long_path_request n ''HTTP/1.1'')"
    by (rule headers_loop_LF [rotated])
  with v show ?thesis
    by (simp add: DeserializeRequest_def parse_type_def parse_path_def parse_version_def
        plus_assign_def long_path_request_def commit_def setVersion_def)
qed

lemma ProcessRequest_long_request:
  assumes "int (length (long_request_line n)) \<le> sockBufferSize"
  shows "ProcessRequest [Received (long_request_line n), Received [LF, LF], WouldBlock]
           (new_connection 5)
     = Some (True,
         if int n + 15 > maxHeaderSize
         then bad_request (long_request_parsed n) ''Header size exceeds defined maximum size''
         else long_request_parsed n)"
proof -
  have c: "c_str [LF, LF] = [LF, LF]"
    by (simp add: c_str_def LF_def)
  from assms have "int n + 5 \<le> maxHeaderSize"
    by (simp add: maxHeaderSize_def sockBufferSize_def length_long_request_line)
  then show ?thesis
    by (simp add: c_str_long_request_line c new_connection_def parse_long_request_line
        parse_long_request_end sizeBeforeCursor_def long_request_parsed_def)
qed

text \<open>
  C7 does not hold of the code. A header block of 8193 bytes, received as 8191 bytes and
  the two newlines, is parsed to its end and accepted like one of 8192 bytes: the
  connection stays in stage \<^verbatim>\<open>REQ\<close> with the default response. After the last byte
  the head cursor is on that byte, at index 8192, and the test is
  \<^verbatim>\<open>sizeBeforeCursor() > 8192\<close>. The 400 response comes with a block of 8194 bytes.
\<close>

theorem C7_header_block_of_8193_bytes_accepted:
  "length (long_request_line 8177 @ [LF, LF]) = 8193
   \<and> ProcessRequest [Received (long_request_line 8177), Received [LF, LF], WouldBlock]
        (new_connection 5) = Some (True, long_request_parsed 8177)
   \<and> stage (long_request_parsed 8177) = REQ
   \<and> statusCode (response (long_request_parsed 8177)) = 200
   \<and> sizeBeforeCursor (reqBuffer (long_request_parsed 8177)) = 8192
   \<and> length (long_request_line 8176 @ [LF, LF]) = 8192
   \<and> ProcessRequest [Received (long_request_line 8176), Received [LF, LF], WouldBlock]
        (new_connection 5) = Some (True, long_request_parsed 8176)
   \<and> length (long_request_line 8178 @ [LF, LF]) = 8194
   \<and> ProcessRequest [Received (long_request_line 8178), Received [LF, LF], WouldBlock]
        (new_connection 5)
      = Some (True, bad_request (long_request_parsed 8178)
                      ''Header size exceeds defined maximum size'')"
  using ProcessRequest_long_request [of 8177] ProcessRequest_long_request [of 8176]
    ProcessRequest_long_request [of 8178]
  by (simp add: length_long_request_line sockBufferSize_def maxHeaderSize_def
      long_request_parsed_def new_connection_def default_Response_def sizeBeforeCursor_def)

section \<open>Properties of responses\<close>

text \<open>
  C8 does not hold of the code where the local time zone is not UTC. \<^verbatim>\<open>setDate\<close>
  writes the time point 784111777 s as \<^verbatim>\<open>Sun, 06 Nov 1994 08:49:37 GMT\<close>; \<^verbatim>\<open>getDate\<close>
  hands the parsed fields to \<^verbatim>\<open>mktime\<close>, which takes them for local time: one hour
  east of UTC the result is 3600 s too early. With offset 0 the time point comes back.
\<close>

theorem C8_date_read_back_in_local_time:
  "resHeaders (setDate default_Response 784111777000000000) ''Date''
     = Some ''Sun, 06 Nov 1994 08:49:37 GMT''
   \<and> getDate 3600 (setDate default_Response 784111777000000000) = Some 784108177000000000
   \<and> getDate 0 (setDate default_Response 784111777000000000) = Some 784111777000000000"
  by code_simp

end
